theory Spec2Isabelle
  imports Main "HOL-Library.Word"
begin

section \<open>The class Poly of poly.cpp: data model and memory\<close>

text \<open>
  A C++ \<open>int\<close> is a 32-bit two's complement word: \<open>+\<close>, \<open>-\<close> and \<open>*\<close> wrap
  around (C++ leaves signed overflow undefined; wrapping is what the usual targets
  do), \<open><s\<close> and \<open>\<le>s\<close> are the signed comparisons of the source, \<open>sint\<close> reads
  the signed value. A \<open>Poly\<close> holds the pointer \<open>coeffList\<close> and the field
  \<open>size\<close>; the array behind the pointer is a list, whose length is the length the
  array was allocated with, so that an access outside the array is visible: it is
  the result \<open>Inl OutOfBounds\<close>. The destructor has no effect a caller can see and
  is left out.
\<close>

type_synonym int32 = "32 word"

datatype error = BadAlloc | OutOfBounds

record Poly =
  coeffList :: "int32 list"
  size_poly :: int32

text \<open>The number of coefficients a loop \<open>for (int i = 0; i < size; ++i)\<close> visits.\<close>

definition len :: "Poly \<Rightarrow> nat" where
  "len p = nat (sint (size_poly p))"

text \<open>Sequencing of steps that may fail: the first failure ends the function.\<close>

fun seq :: "error + 'a \<Rightarrow> ('a \<Rightarrow> error + 'b) \<Rightarrow> error + 'b" where
  "seq (Inl e) f = Inl e"
| "seq (Inr x) f = f x"

lemma seq_cong [fundef_cong]:
  "m = m' \<Longrightarrow> (\<And>x. m' = Inr x \<Longrightarrow> f x = f' x) \<Longrightarrow> seq m f = seq m' f'"
  by (cases m') auto

text \<open>\<open>a[k]\<close> as a read and as a write, for a signed index \<open>k\<close>.\<close>

definition rd :: "int32 list \<Rightarrow> int \<Rightarrow> error + int32" where
  "rd a k = (if 0 \<le> k \<and> nat k < length a then Inr (a ! nat k) else Inl OutOfBounds)"

definition wr :: "int32 list \<Rightarrow> int \<Rightarrow> int32 \<Rightarrow> error + int32 list" where
  "wr a k v = (if 0 \<le> k \<and> nat k < length a then Inr (a[nat k := v]) else Inl OutOfBounds)"

text \<open>
  \<open>new int[n]\<close>: a negative \<open>n\<close> is refused (the exception
  \<open>std::bad_array_new_length\<close>); otherwise the array has \<open>n\<close> cells of
  indeterminate contents, which \<open>junk\<close> stands for (cell \<open>i\<close> holds \<open>junk i\<close>).
  Running out of memory is not modelled.
\<close>

definition new_int :: "(nat \<Rightarrow> int32) \<Rightarrow> int32 \<Rightarrow> error + int32 list" where
  "new_int junk n = (if n <s 0 then Inl BadAlloc else Inr (map junk [0..<nat (sint n)]))"

section \<open>Loops over the coefficient array\<close>

text \<open>
  The counter of a \<open>for\<close> loop starts at 0 and stays below an \<open>int\<close> bound, so it
  never overflows: it is a \<open>nat\<close> here, and the bound is \<open>len\<close>.
\<close>

text \<open>\<open>for (; i < n; ++i) dst[i] = src[i];\<close>\<close>

function copy_loop :: "nat \<Rightarrow> nat \<Rightarrow> int32 list \<Rightarrow> int32 list \<Rightarrow> error + int32 list" where
  "copy_loop i n src dst =
     (if i < n
      then seq (rd src (int i)) (\<lambda>v. seq (wr dst (int i) v) (\<lambda>dst'. copy_loop (Suc i) n src dst'))
      else Inr dst)"
  by pat_completeness auto
termination
  by (relation "measure (\<lambda>(i, n, src, dst). n - i)") auto

text \<open>\<open>for (; i < n; ++i) dst[i] = 0;\<close>\<close>

function zero_loop :: "nat \<Rightarrow> nat \<Rightarrow> int32 list \<Rightarrow> error + int32 list" where
  "zero_loop i n dst =
     (if i < n
      then seq (wr dst (int i) 0) (\<lambda>dst'. zero_loop (Suc i) n dst')
      else Inr dst)"
  by pat_completeness auto
termination
  by (relation "measure (\<lambda>(i, n, dst). n - i)") auto

text \<open>
  \<open>while (size < index) coeffList[size++] = 0;\<close> of \<open>setCoeff\<close>, which counts in
  the field \<open>size\<close> itself; it returns the array and the final \<open>size\<close>.
\<close>

lemma sint_succ_less:
  fixes a b :: int32
  assumes "a <s b"
  shows "sint (a + 1) = sint a + 1"
proof -
  have "sint a < sint b" using assms by (simp add: word_sless_alt)
  moreover have "sint b < 2 ^ 31" using sint_lt [of b] by simp
  moreover have "- (2 ^ 31) \<le> sint a" using sint_ge [of a] by simp
  ultimately show ?thesis
    by (simp add: sint_word_ariths signed_take_bit_int_eq_self)
qed

function grow_loop :: "int32 \<Rightarrow> int32 list \<Rightarrow> int32 \<Rightarrow> error + (int32 list \<times> int32)" where
  "grow_loop index cl sz =
     (if sz <s index
      then seq (wr cl (sint sz) 0) (\<lambda>cl'. grow_loop index cl' (sz + 1))
      else Inr (cl, sz))"
  by pat_completeness auto
termination
proof (relation "measure (\<lambda>(index, cl, sz). nat (sint index - sint sz))")
  show "wf (measure (\<lambda>(index, cl, sz). nat (sint index - sint sz)))" by simp
next
  fix index :: int32 and cl :: "int32 list" and sz :: int32 and x :: "int32 list"
  assume "sz <s index"
  then show "((index, x, sz + 1), (index, cl, sz))
      \<in> measure (\<lambda>(index, cl, sz). nat (sint index - sint sz))"
    using sint_succ_less [of sz index] by (simp add: word_sless_alt)
qed

section \<open>Constructors\<close>

text \<open>\<open>Poly::Poly()\<close>\<close>

definition Poly_default :: "(nat \<Rightarrow> int32) \<Rightarrow> error + Poly" where
  "Poly_default junk =
     seq (new_int junk 1) (\<lambda>cl.
     seq (wr cl 0 0) (\<lambda>cl.
     Inr \<lparr>coeffList = cl, size_poly = 1\<rparr>))"

text \<open>\<open>Poly::Poly(int coeff)\<close>\<close>

definition Poly_coeff :: "(nat \<Rightarrow> int32) \<Rightarrow> int32 \<Rightarrow> error + Poly" where
  "Poly_coeff junk coeff =
     seq (new_int junk 1) (\<lambda>cl.
     seq (wr cl 0 coeff) (\<lambda>cl.
     Inr \<lparr>coeffList = cl, size_poly = 1\<rparr>))"

text \<open>\<open>Poly::Poly(int coeff, int exp)\<close>\<close>

definition Poly_coeff_exp :: "(nat \<Rightarrow> int32) \<Rightarrow> int32 \<Rightarrow> int32 \<Rightarrow> error + Poly" where
  "Poly_coeff_exp junk coeff exp =
     (let sz = (if exp <s 0 then exp * (- 1) + 1 else exp + 1) in
      seq (new_int junk sz) (\<lambda>cl.
      seq (zero_loop 0 (nat (sint (sz - 1))) cl) (\<lambda>cl.
      seq (wr cl (sint (sz - 1)) coeff) (\<lambda>cl.
      Inr \<lparr>coeffList = cl, size_poly = sz\<rparr>))))"

text \<open>\<open>Poly::Poly(const Poly& orig)\<close>\<close>

definition Poly_copy :: "(nat \<Rightarrow> int32) \<Rightarrow> Poly \<Rightarrow> error + Poly" where
  "Poly_copy junk orig =
     seq (new_int junk (size_poly orig)) (\<lambda>cl.
     seq (copy_loop 0 (len orig) (coeffList orig) cl) (\<lambda>cl.
     Inr \<lparr>coeffList = cl, size_poly = size_poly orig\<rparr>))"

section \<open>Accessor and mutator\<close>

text \<open>\<open>Poly::getCoeff\<close>\<close>

definition getCoeff :: "Poly \<Rightarrow> int32 \<Rightarrow> error + int32" where
  "getCoeff p exp =
     (if size_poly p \<le>s exp \<or> exp <s 0 then Inr 0 else rd (coeffList p) (sint exp))"

text \<open>\<open>Poly::setCoeff\<close>\<close>

definition setCoeff :: "(nat \<Rightarrow> int32) \<Rightarrow> int32 \<Rightarrow> int32 \<Rightarrow> Poly \<Rightarrow> error + Poly" where
  "setCoeff junk coeff exp p =
     (let index = (if exp <s 0 then exp * (- 1) else exp) in
      seq (if size_poly p \<le>s index
           then seq (new_int junk (index + 1)) (\<lambda>temp.
                seq (copy_loop 0 (len p) (coeffList p) temp) (\<lambda>temp.
                seq (grow_loop index temp (size_poly p)) (\<lambda>(cl, sz).
                Inr \<lparr>coeffList = cl, size_poly = sz + 1\<rparr>)))
           else Inr p) (\<lambda>p'.
      seq (wr (coeffList p') (sint index) coeff) (\<lambda>cl.
      Inr (p'\<lparr>coeffList := cl\<rparr>))))"

section \<open>Loops of the arithmetic operators\<close>

text \<open>\<open>for (; i < n; ++i) dst[i] += src[i];\<close>\<close>

function add_loop :: "nat \<Rightarrow> nat \<Rightarrow> int32 list \<Rightarrow> int32 list \<Rightarrow> error + int32 list" where
  "add_loop i n src dst =
     (if i < n
      then seq (rd dst (int i)) (\<lambda>d.
           seq (rd src (int i)) (\<lambda>s.
           seq (wr dst (int i) (d + s)) (\<lambda>dst'. add_loop (Suc i) n src dst')))
      else Inr dst)"
  by pat_completeness auto
termination
  by (relation "measure (\<lambda>(i, n, src, dst). n - i)") auto

text \<open>\<open>for (; i < n; ++i) dst[i] -= src[i];\<close>\<close>

function sub_loop :: "nat \<Rightarrow> nat \<Rightarrow> int32 list \<Rightarrow> int32 list \<Rightarrow> error + int32 list" where
  "sub_loop i n src dst =
     (if i < n
      then seq (rd dst (int i)) (\<lambda>d.
           seq (rd src (int i)) (\<lambda>s.
           seq (wr dst (int i) (d - s)) (\<lambda>dst'. sub_loop (Suc i) n src dst')))
      else Inr dst)"
  by pat_completeness auto
termination
  by (relation "measure (\<lambda>(i, n, src, dst). n - i)") auto

text \<open>
  The two nested loops of the multiplications,
  \<open>for (; j < m; ++j) prod[i + j] += a[i] * b[j];\<close> inside \<open>for (; i < n; ++i)\<close>.
  The index \<open>i + j\<close> is never more than 1 above the largest index used before, and
  no array has more than \<open>2^31 - 1\<close> cells, so an access outside the array ends the
  run before \<open>i + j\<close> could leave the range of \<open>int\<close>: it is a \<open>nat\<close> here. The
  array \<open>prod\<close> of the source is \<open>pr\<close>.
\<close>

function mul_inner ::
  "int32 list \<Rightarrow> int32 list \<Rightarrow> nat \<Rightarrow> nat \<Rightarrow> nat \<Rightarrow> int32 list \<Rightarrow> error + int32 list" where
  "mul_inner a b i j m pr =
     (if j < m
      then seq (rd pr (int (i + j))) (\<lambda>acc.
           seq (rd a (int i)) (\<lambda>x.
           seq (rd b (int j)) (\<lambda>y.
           seq (wr pr (int (i + j)) (acc + x * y)) (\<lambda>pr'. mul_inner a b i (Suc j) m pr'))))
      else Inr pr)"
  by pat_completeness auto
termination
  by (relation "measure (\<lambda>(a, b, i, j, m, pr). m - j)") auto

function mul_outer ::
  "int32 list \<Rightarrow> int32 list \<Rightarrow> nat \<Rightarrow> nat \<Rightarrow> nat \<Rightarrow> int32 list \<Rightarrow> error + int32 list" where
  "mul_outer a b i n m pr =
     (if i < n
      then seq (mul_inner a b i 0 m pr) (\<lambda>pr'. mul_outer a b (Suc i) n m pr')
      else Inr pr)"
  by pat_completeness auto
termination
  by (relation "measure (\<lambda>(a, b, i, n, m, pr). n - i)") auto

section \<open>Arithmetic operators\<close>

text \<open>
  The operands are passed as values. Where the source lets \<open>this\<close> and \<open>rhs\<close> be
  the same object (\<open>p += p\<close>, \<open>p *= p\<close>), each cell is read before it is written,
  so the values read are those of the operand as passed.
\<close>

text \<open>\<open>Poly::operator+\<close>\<close>

definition operator_plus :: "(nat \<Rightarrow> int32) \<Rightarrow> Poly \<Rightarrow> Poly \<Rightarrow> error + Poly" where
  "operator_plus junk this rhs =
     (if size_poly rhs <s size_poly this
      then seq (Poly_copy junk this) (\<lambda>sum.
           seq (add_loop 0 (len rhs) (coeffList rhs) (coeffList sum)) (\<lambda>cl.
           Inr (sum\<lparr>coeffList := cl\<rparr>)))
      else seq (Poly_copy junk rhs) (\<lambda>sum.
           seq (add_loop 0 (len this) (coeffList this) (coeffList sum)) (\<lambda>cl.
           Inr (sum\<lparr>coeffList := cl\<rparr>))))"

text \<open>\<open>Poly::operator-\<close>\<close>

definition operator_minus :: "(nat \<Rightarrow> int32) \<Rightarrow> Poly \<Rightarrow> Poly \<Rightarrow> error + Poly" where
  "operator_minus junk this rhs =
     seq (Poly_copy junk this) (\<lambda>diff.
     seq (if size_poly this <s size_poly rhs
          then setCoeff junk 0 (size_poly rhs - 1) diff
          else Inr diff) (\<lambda>diff.
     seq (sub_loop 0 (len rhs) (coeffList rhs) (coeffList diff)) (\<lambda>cl.
     Inr (diff\<lparr>coeffList := cl\<rparr>))))"

text \<open>\<open>Poly::operator*\<close>\<close>

definition operator_times :: "(nat \<Rightarrow> int32) \<Rightarrow> Poly \<Rightarrow> Poly \<Rightarrow> error + Poly" where
  "operator_times junk this rhs =
     seq (Poly_default junk) (\<lambda>prod.
     seq (setCoeff junk 0 (size_poly this + size_poly rhs - 2) prod) (\<lambda>prod.
     seq (mul_outer (coeffList this) (coeffList rhs) 0 (len this) (len rhs) (coeffList prod)) (\<lambda>cl.
     Inr (prod\<lparr>coeffList := cl\<rparr>))))"

text \<open>
  \<open>Poly::operator=\<close> compares the addresses of its two operands, so the objects live
  in a store, from addresses to objects. The freed array of \<open>this\<close> is not part of
  the model: nothing reads it again.
\<close>

type_synonym store = "nat \<Rightarrow> Poly"

definition operator_assign :: "(nat \<Rightarrow> int32) \<Rightarrow> store \<Rightarrow> nat \<Rightarrow> nat \<Rightarrow> error + store" where
  "operator_assign junk s this rhs =
     (if this \<noteq> rhs
      then seq (new_int junk (size_poly (s rhs))) (\<lambda>cl.
           seq (copy_loop 0 (len (s rhs)) (coeffList (s rhs)) cl) (\<lambda>cl.
           Inr (s(this := \<lparr>coeffList = cl, size_poly = size_poly (s rhs)\<rparr>))))
      else Inr s)"

text \<open>\<open>Poly::operator+=\<close>\<close>

definition operator_plus_assign :: "(nat \<Rightarrow> int32) \<Rightarrow> Poly \<Rightarrow> Poly \<Rightarrow> error + Poly" where
  "operator_plus_assign junk this rhs =
     seq (if size_poly this <s size_poly rhs
          then setCoeff junk 0 (size_poly rhs - 1) this
          else Inr this) (\<lambda>this.
     seq (add_loop 0 (len this) (coeffList rhs) (coeffList this)) (\<lambda>cl.
     Inr (this\<lparr>coeffList := cl\<rparr>)))"

text \<open>\<open>Poly::operator-=\<close>\<close>

definition operator_minus_assign :: "(nat \<Rightarrow> int32) \<Rightarrow> Poly \<Rightarrow> Poly \<Rightarrow> error + Poly" where
  "operator_minus_assign junk this rhs =
     seq (if size_poly this <s size_poly rhs
          then setCoeff junk 0 (size_poly rhs - 1) this
          else Inr this) (\<lambda>this.
     seq (sub_loop 0 (len this) (coeffList rhs) (coeffList this)) (\<lambda>cl.
     Inr (this\<lparr>coeffList := cl\<rparr>)))"

text \<open>
  \<open>Poly::operator*=\<close>. The accumulator \<open>prod\<close> is read by \<open>+=\<close> as \<open>new\<close> left
  it, and the field \<open>size\<close> is not assigned.
\<close>

definition operator_times_assign :: "(nat \<Rightarrow> int32) \<Rightarrow> Poly \<Rightarrow> Poly \<Rightarrow> error + Poly" where
  "operator_times_assign junk this rhs =
     seq (new_int junk (size_poly this + size_poly rhs - 1)) (\<lambda>prod.
     seq (mul_outer (coeffList this) (coeffList rhs) 0 (len this) (len rhs) prod) (\<lambda>prod.
     Inr (this\<lparr>coeffList := prod\<rparr>)))"

section \<open>Comparison\<close>

text \<open>
  \<open>Poly::compare\<close>: the second \<open>while\<close> loop goes on from the counter the first one
  stopped at; a \<open>return false\<close> inside a loop ends the function.
\<close>

function compare_tail :: "nat \<Rightarrow> Poly \<Rightarrow> error + bool" where
  "compare_tail i larger =
     (if i < len larger
      then seq (rd (coeffList larger) (int i)) (\<lambda>l.
           if l \<noteq> 0 then Inr False else compare_tail (Suc i) larger)
      else Inr True)"
  by pat_completeness auto
termination
  by (relation "measure (\<lambda>(i, larger). len larger - i)") auto

function compare_head :: "nat \<Rightarrow> Poly \<Rightarrow> Poly \<Rightarrow> error + bool" where
  "compare_head i smaller larger =
     (if i < len smaller
      then seq (rd (coeffList smaller) (int i)) (\<lambda>s.
           seq (rd (coeffList larger) (int i)) (\<lambda>l.
           if s \<noteq> l then Inr False else compare_head (Suc i) smaller larger))
      else compare_tail i larger)"
  by pat_completeness auto
termination
  by (relation "measure (\<lambda>(i, smaller, larger). len smaller - i)") auto

definition compare :: "Poly \<Rightarrow> Poly \<Rightarrow> error + bool" where
  "compare smaller larger = compare_head 0 smaller larger"

text \<open>\<open>Poly::operator==\<close> and \<open>Poly::operator!=\<close>\<close>

definition operator_eq :: "Poly \<Rightarrow> Poly \<Rightarrow> error + bool" where
  "operator_eq this rhs =
     (if size_poly rhs <s size_poly this then compare rhs this else compare this rhs)"

definition operator_neq :: "Poly \<Rightarrow> Poly \<Rightarrow> error + bool" where
  "operator_neq this rhs = seq (operator_eq this rhs) (\<lambda>b. Inr (\<not> b))"

section \<open>Stream output and input\<close>

text \<open>
  Output streams are objects too: a store gives, for the address of each stream, the
  text written to it so far. \<open>cout\<close> is the address of the standard output stream.
\<close>

type_synonym ostreams = "nat \<Rightarrow> string"

definition cout :: nat where
  "cout = 0"

definition put :: "ostreams \<Rightarrow> nat \<Rightarrow> string \<Rightarrow> ostreams" where
  "put os h txt = os(h := os h @ txt)"

text \<open>
  The library's \<open>operator<<(int)\<close> writes the decimal numeral of its argument, with a
  minus sign in front of a negative one.
\<close>

definition digit :: "nat \<Rightarrow> char" where
  "digit d = ''0123456789'' ! d"

function digits :: "nat \<Rightarrow> string" where
  "digits n = (if n < 10 then [digit n] else digits (n div 10) @ [digit (n mod 10)])"
  by pat_completeness auto
termination
  by (relation "measure (\<lambda>n. n)") auto

definition show_int :: "int \<Rightarrow> string" where
  "show_int k = (if k < 0 then CHR ''-'' # digits (nat (- k)) else digits (nat k))"

text \<open>
  The loop \<open>for (int i = source.size - 1; i >= 0; --i)\<close> of \<open>operator<<\<close>: the first
  argument is \<open>i + 1\<close>, the number of rounds still to run; the state is the streams
  and the flag \<open>nonzero\<close>.
\<close>

fun out_loop :: "nat \<Rightarrow> Poly \<Rightarrow> ostreams \<times> bool \<Rightarrow> error + (ostreams \<times> bool)" where
  "out_loop 0 source st = Inr st"
| "out_loop (Suc i) source (os, nonzero) =
     seq (rd (coeffList source) (int i)) (\<lambda>c.
       if c \<noteq> 0
       then (let os = put os cout '' '';
                 os = (if 0 <s c then put os cout ''+'' else os);
                 os = put os cout (show_int (sint c));
                 os = (if 0 < i then put os cout ''x'' else os);
                 os = (if 1 < i then put (put os cout ''^'') cout (show_int (int i)) else os)
             in out_loop i source (os, True))
       else out_loop i source (os, nonzero))"

text \<open>\<open>operator<<(ostream& output, const Poly& source)\<close>: it returns \<open>output\<close>.\<close>

definition operator_out :: "ostreams \<Rightarrow> nat \<Rightarrow> Poly \<Rightarrow> error + (ostreams \<times> nat)" where
  "operator_out os output source =
     seq (out_loop (nat (sint (size_poly source - 1) + 1)) source (os, False)) (\<lambda>(os, nonzero).
     Inr (if \<not> nonzero then put os cout '' 0'' else os, output))"

text \<open>
  An input stream is the list of the integers still to be read. \<open>input >> v\<close> takes
  the first one; at the end of the input the extraction fails and leaves \<open>v\<close> as it
  was.
\<close>

type_synonym istream = "int32 list"

fun extract_int :: "istream \<Rightarrow> int32 \<Rightarrow> istream \<times> int32" where
  "extract_int [] v = ([], v)"
| "extract_int (t # ts) v = (ts, t)"

text \<open>
  The loop \<open>while (coeff != 0 || exp != 0)\<close> of \<open>operator>>\<close>. On an input that ends
  before a pair \<open>0 0\<close> it goes on with the last pair for ever, unless a \<open>setCoeff\<close>
  fails: not ending is the value \<open>None\<close>.
\<close>

partial_function (option) read_loop ::
  "(nat \<Rightarrow> int32) \<Rightarrow> istream \<Rightarrow> Poly \<Rightarrow> int32 \<Rightarrow> int32 \<Rightarrow> (error + istream \<times> Poly) option" where
  "read_loop junk input target coeff exp =
     (if coeff \<noteq> 0 \<or> exp \<noteq> 0
      then (case setCoeff junk coeff exp target of
              Inl e \<Rightarrow> Some (Inl e)
            | Inr target' \<Rightarrow>
                (case extract_int input coeff of (input1, coeff') \<Rightarrow>
                 case extract_int input1 exp of (input2, exp') \<Rightarrow>
                   read_loop junk input2 target' coeff' exp'))
      else Some (Inr (input, target)))"

text \<open>
  \<open>operator>>(istream& input, Poly& target)\<close>. The locals \<open>coeff\<close> and \<open>exp\<close> are
  not initialised: \<open>coeff0\<close> and \<open>exp0\<close> stand for what they hold.
\<close>

definition operator_in ::
  "(nat \<Rightarrow> int32) \<Rightarrow> int32 \<Rightarrow> int32 \<Rightarrow> istream \<Rightarrow> Poly \<Rightarrow> (error + istream \<times> Poly) option" where
  "operator_in junk coeff0 exp0 input target =
     (case extract_int input coeff0 of (input1, coeff) \<Rightarrow>
      case extract_int input1 exp0 of (input2, exp) \<Rightarrow>
      case zero_loop 0 (len target) (coeffList target) of
        Inl e \<Rightarrow> Some (Inl e)
      | Inr cl \<Rightarrow> read_loop junk input2 (target\<lparr>coeffList := cl\<rparr>) coeff exp)"

declare read_loop.simps [code]

section \<open>Well-formed objects, and the words of the specification\<close>

text \<open>
  The objects the operations are meant for, "a polynomial" in the claims: the field
  \<open>size\<close> is at least 1 and the array holds at least \<open>size\<close> cells. The
  constructors give arrays of exactly \<open>size\<close> cells; after \<open>operator*=\<close> the array is
  longer than \<open>size\<close>. The length of \<open>p\<close> is \<open>len p\<close> and its coefficient at
  exponent \<open>k < len p\<close> is \<open>coeffList p ! k\<close>.
\<close>

definition poly_ok :: "Poly \<Rightarrow> bool" where
  "poly_ok p \<longleftrightarrow> 1 \<le>s size_poly p \<and> len p \<le> length (coeffList p)"

text \<open>
  The words of the spec for equality: every coefficient of \<open>smaller\<close> equals the one
  of \<open>larger\<close> at the same exponent, and \<open>larger\<close> is 0 beyond the length of
  \<open>smaller\<close>.
\<close>

definition spec_equal :: "Poly \<Rightarrow> Poly \<Rightarrow> bool" where
  "spec_equal smaller larger \<longleftrightarrow>
     (\<forall>k < len smaller. coeffList smaller ! k = coeffList larger ! k) \<and>
     (\<forall>k. len smaller \<le> k \<and> k < len larger \<longrightarrow> coeffList larger ! k = 0)"

text \<open>
  The words of the spec for the product: the coefficient at exponent \<open>k\<close> is the sum
  over all \<open>i\<close>, \<open>j\<close> with \<open>i + j = k\<close> of \<open>p[i] * q[j]\<close>, in the arithmetic of
  \<open>int\<close>.
\<close>

definition convolution :: "Poly \<Rightarrow> Poly \<Rightarrow> nat \<Rightarrow> int32" where
  "convolution p q k =
     (\<Sum>i < len p. \<Sum>j < len q. if i + j = k then coeffList p ! i * coeffList q ! j else 0)"

text \<open>
  Sample contents of fresh storage (all cells 0, all cells 7) and the output streams
  before anything is written, for the examples.
\<close>

definition zeroed :: "nat \<Rightarrow> int32" where
  "zeroed i = 0"

definition sevens :: "nat \<Rightarrow> int32" where
  "sevens i = 7"

definition blank :: ostreams where
  "blank h = []"

text \<open>The expressions \<open>p + q == q + p\<close> and \<open>p * q == q * p\<close> of the spec, evaluated.\<close>

definition plus_commutes :: "(nat \<Rightarrow> int32) \<Rightarrow> Poly \<Rightarrow> Poly \<Rightarrow> error + bool" where
  "plus_commutes junk p q =
     seq (operator_plus junk p q) (\<lambda>a. seq (operator_plus junk q p) (\<lambda>b. operator_eq a b))"

definition times_commutes :: "(nat \<Rightarrow> int32) \<Rightarrow> Poly \<Rightarrow> Poly \<Rightarrow> error + bool" where
  "times_commutes junk p q =
     seq (operator_times junk p q) (\<lambda>a. seq (operator_times junk q p) (\<lambda>b. operator_eq a b))"

text \<open>
  The words of the spec for parsing: the pairs before the terminator, applied in
  order with \<open>setCoeff\<close>, to the target with its existing entries reset to zero.
  \<open>tokens ps\<close> is the input that holds the pairs \<open>ps\<close>.
\<close>

fun apply_pairs :: "(nat \<Rightarrow> int32) \<Rightarrow> (int32 \<times> int32) list \<Rightarrow> Poly \<Rightarrow> error + Poly" where
  "apply_pairs junk [] t = Inr t"
| "apply_pairs junk ((c, e) # ps) t = seq (setCoeff junk c e t) (\<lambda>t'. apply_pairs junk ps t')"

definition reset_entries :: "Poly \<Rightarrow> Poly" where
  "reset_entries t =
     t\<lparr>coeffList := map (\<lambda>k. if k < len t then 0 else coeffList t ! k) [0..<length (coeffList t)]\<rparr>"

fun tokens :: "(int32 \<times> int32) list \<Rightarrow> istream" where
  "tokens [] = []"
| "tokens ((c, e) # ps) = c # e # tokens ps"

text \<open>
  The words of the spec for the text of a polynomial: one term per exponent with a
  non-zero coefficient, from the highest exponent down, or \<open>" 0"\<close> when there is none.
\<close>

definition term_text :: "int32 \<Rightarrow> nat \<Rightarrow> string" where
  "term_text c i =
     '' '' @ (if 0 <s c then ''+'' else '''') @ show_int (sint c) @
     (if 1 \<le> i then ''x'' else '''') @ (if 2 \<le> i then ''^'' @ show_int (int i) else '''')"

fun terms_text :: "int32 list \<Rightarrow> nat \<Rightarrow> string" where
  "terms_text cl 0 = ''''"
| "terms_text cl (Suc i) = (if cl ! i \<noteq> 0 then term_text (cl ! i) i else '''') @ terms_text cl i"

definition format_text :: "Poly \<Rightarrow> string" where
  "format_text p =
     (if \<forall>i < len p. coeffList p ! i = 0 then '' 0'' else terms_text (coeffList p) (len p))"

section \<open>What the loops and the operations compute\<close>

subsection \<open>Array accesses, the copying and filling loops, setCoeff\<close>

lemma rd_int [simp]: "rd a (int i) = (if i < length a then Inr (a ! i) else Inl OutOfBounds)"
  by (simp add: rd_def)

lemma wr_int [simp]: "wr a (int i) v = (if i < length a then Inr (a[i := v]) else Inl OutOfBounds)"
  by (simp add: wr_def)

declare copy_loop.simps [simp del] zero_loop.simps [simp del] grow_loop.simps [simp del]

lemma copy_loop_eq:
  "n \<le> length src \<Longrightarrow> n \<le> length dst \<Longrightarrow>
   copy_loop i n src dst =
     Inr (map (\<lambda>k. if i \<le> k \<and> k < n then src ! k else dst ! k) [0..<length dst])"
proof (induction i n src dst rule: copy_loop.induct)
  case (1 i n src dst)
  show ?case
  proof (cases "i < n")
    case True
    have "copy_loop i n src dst = copy_loop (Suc i) n src (dst[i := src ! i])"
      using True "1.prems" by (subst copy_loop.simps) simp
    also have "\<dots> = Inr (map (\<lambda>k. if Suc i \<le> k \<and> k < n then src ! k else dst[i := src ! i] ! k)
        [0..<length dst])"
      using "1.IH" [of "src ! i" "dst[i := src ! i]"] True "1.prems" by simp
    also have "\<dots> = Inr (map (\<lambda>k. if i \<le> k \<and> k < n then src ! k else dst ! k) [0..<length dst])"
      using True by (auto simp: nth_list_update not_less_eq_eq dest: le_antisym)
    finally show ?thesis .
  next
    case False
    then show ?thesis
      by (subst copy_loop.simps) (auto intro!: nth_equalityI)
  qed
qed

lemma zero_loop_eq:
  "n \<le> length dst \<Longrightarrow>
   zero_loop i n dst = Inr (map (\<lambda>k. if i \<le> k \<and> k < n then 0 else dst ! k) [0..<length dst])"
proof (induction i n dst rule: zero_loop.induct)
  case (1 i n dst)
  show ?case
  proof (cases "i < n")
    case True
    have "zero_loop i n dst = zero_loop (Suc i) n (dst[i := 0])"
      using True "1.prems" by (subst zero_loop.simps) simp
    also have "\<dots> = Inr (map (\<lambda>k. if Suc i \<le> k \<and> k < n then 0 else dst[i := 0] ! k)
        [0..<length dst])"
      using "1.IH" [of "dst[i := 0]"] True "1.prems" by simp
    also have "\<dots> = Inr (map (\<lambda>k. if i \<le> k \<and> k < n then 0 else dst ! k) [0..<length dst])"
      using True by (auto simp: nth_list_update)
    finally show ?thesis .
  next
    case False
    then show ?thesis
      by (subst zero_loop.simps) (auto intro!: nth_equalityI)
  qed
qed

lemma grow_loop_eq:
  "0 \<le> sint sz \<Longrightarrow> sz \<le>s index \<Longrightarrow> nat (sint index) \<le> length cl \<Longrightarrow>
   grow_loop index cl sz =
     Inr (map (\<lambda>k. if nat (sint sz) \<le> k \<and> k < nat (sint index) then 0 else cl ! k) [0..<length cl],
          index)"
proof (induction index cl sz rule: grow_loop.induct)
  case (1 index cl sz)
  show ?case
  proof (cases "sz <s index")
    case True
    have s1: "sint (sz + 1) = sint sz + 1" using True by (rule sint_succ_less)
    have lt: "sint sz < sint index" using True by (simp add: word_sless_alt)
    have w: "wr cl (sint sz) 0 = Inr (cl[nat (sint sz) := 0])"
      using "1.prems" lt by (simp add: wr_def)
    have "grow_loop index cl sz = grow_loop index (cl[nat (sint sz) := 0]) (sz + 1)"
      using True w by (subst grow_loop.simps) simp
    also have "\<dots> = Inr (map (\<lambda>k. if nat (sint (sz + 1)) \<le> k \<and> k < nat (sint index) then 0
          else cl[nat (sint sz) := 0] ! k) [0..<length cl], index)"
      using "1.IH" [OF True w] "1.prems" s1 lt by (simp add: word_sle_eq)
    also have "\<dots> = Inr (map (\<lambda>k. if nat (sint sz) \<le> k \<and> k < nat (sint index) then 0 else cl ! k)
        [0..<length cl], index)"
      using lt "1.prems" s1 by (auto simp: nth_list_update)
    finally show ?thesis .
  next
    case False
    then have "sz = index" using "1.prems"
      by (auto simp: word_sle_eq word_sless_alt intro: signed_word_eqI)
    then show ?thesis
      by (subst grow_loop.simps) (auto intro!: nth_equalityI)
  qed
qed

lemma sint_index:
  fixes e :: int32
  assumes "- (2 ^ 31) < sint e"
  shows "sint (if e <s 0 then e * (- 1) else e) = \<bar>sint e\<bar>"
proof (cases "e <s 0")
  case True
  then have neg: "sint e < 0" by (simp add: word_sless_alt)
  have "sint (- e) = - sint e"
    using assms neg by (simp add: sint_word_ariths signed_take_bit_int_eq_self)
  then show ?thesis using True neg by simp
next
  case False
  then show ?thesis by (simp add: word_sless_alt)
qed

lemma sint_plus_one:
  fixes a :: int32
  assumes "sint a < 2 ^ 31 - 1"
  shows "sint (a + 1) = sint a + 1"
  using assms sint_ge [of a]
  by (simp add: sint_word_ariths signed_take_bit_int_eq_self)

lemma new_int_ok:
  "sint n = int m \<Longrightarrow> new_int junk n = Inr (map junk [0..<m])"
  by (simp add: new_int_def word_sless_alt)

lemma copy_fresh:
  assumes "n \<le> length src" and "n \<le> m"
  shows "copy_loop 0 n src (map junk [0..<m]) =
     Inr (map (\<lambda>j. if j < n then src ! j else junk j) [0..<m])"
proof -
  have "copy_loop 0 n src (map junk [0..<m]) =
      Inr (map (\<lambda>k. if 0 \<le> k \<and> k < n then src ! k else map junk [0..<m] ! k)
        [0..<length (map junk [0..<m])])"
    using assms by (intro copy_loop_eq) simp_all
  also have "\<dots> = Inr (map (\<lambda>j. if j < n then src ! j else junk j) [0..<m])"
    by simp
  finally show ?thesis .
qed

lemma grow_fresh:
  fixes index sz :: int32
  assumes "sint sz = int n" and "sint index = int k" and "n \<le> k" and "k < m"
  shows "grow_loop index (map f [0..<m]) sz =
     Inr (map (\<lambda>j. if n \<le> j \<and> j < k then 0 else f j) [0..<m], index)"
proof -
  have "grow_loop index (map f [0..<m]) sz =
      Inr (map (\<lambda>j. if nat (sint sz) \<le> j \<and> j < nat (sint index) then 0 else map f [0..<m] ! j)
        [0..<length (map f [0..<m])], index)"
    using assms by (intro grow_loop_eq) (simp_all add: word_sle_eq)
  also have "\<dots> = Inr (map (\<lambda>j. if n \<le> j \<and> j < k then 0 else f j) [0..<m], index)"
    using assms by simp
  finally show ?thesis .
qed

lemma wr_last:
  "wr (map f [0..<Suc k]) (int k) c = Inr (map (\<lambda>j. if j < k then f j else c) [0..<Suc k])"
proof -
  have "(map f [0..<Suc k])[k := c] = map (\<lambda>j. if j < k then f j else c) [0..<Suc k]"
    by (rule nth_equalityI) (auto simp del: upt_Suc simp: nth_list_update)
  then show ?thesis by (simp del: upt_Suc)
qed

lemma setCoeff_grow:
  fixes e :: int32
  defines "index \<equiv> (if e <s 0 then e * (- 1) else e)"
  assumes sz: "sint (size_poly p) = int n" and buf: "n \<le> length (coeffList p)"
    and ix: "sint index = int k" and le: "n \<le> k" and small: "int k < 2 ^ 31 - 1"
  shows "setCoeff junk c e p =
     Inr \<lparr>coeffList = map (\<lambda>j. if j < n then coeffList p ! j else if j < k then 0 else c)
                          [0..<Suc k],
          size_poly = index + 1\<rparr>"
proof -
  have s1: "sint (index + 1) = int (Suc k)"
    using sint_plus_one [of index] small ix by simp
  have cmp: "size_poly p \<le>s index"
    using sz ix le by (simp add: word_sle_eq)
  have lenp: "len p = n" using sz by (simp add: len_def)
  have a: "new_int junk (index + 1) = Inr (map junk [0..<Suc k])"
    using s1 by (rule new_int_ok)
  have b: "copy_loop 0 n (coeffList p) (map junk [0..<Suc k]) =
      Inr (map (\<lambda>j. if j < n then coeffList p ! j else junk j) [0..<Suc k])"
    using buf le by (intro copy_fresh) simp_all
  have c: "grow_loop index (map (\<lambda>j. if j < n then coeffList p ! j else junk j) [0..<Suc k])
        (size_poly p) =
      Inr (map (\<lambda>j. if n \<le> j \<and> j < k then 0 else if j < n then coeffList p ! j else junk j)
        [0..<Suc k], index)"
    using sz ix le by (intro grow_fresh) simp_all
  have d: "wr (map (\<lambda>j. if n \<le> j \<and> j < k then 0 else if j < n then coeffList p ! j else junk j)
        [0..<Suc k]) (sint index) c =
      Inr (map (\<lambda>j. if j < k then (if n \<le> j \<and> j < k then 0 else if j < n then coeffList p ! j
        else junk j) else c) [0..<Suc k])"
    unfolding ix by (rule wr_last)
  have e: "map (\<lambda>j. if j < k then (if n \<le> j \<and> j < k then 0 else if j < n then coeffList p ! j
        else junk j) else c) [0..<Suc k] =
      map (\<lambda>j. if j < n then coeffList p ! j else if j < k then 0 else c) [0..<Suc k]"
    using le by (intro map_cong refl) auto
  have "setCoeff junk c e p =
      seq (seq (new_int junk (index + 1)) (\<lambda>temp.
           seq (copy_loop 0 (len p) (coeffList p) temp) (\<lambda>temp.
           seq (grow_loop index temp (size_poly p)) (\<lambda>(cl, sz).
           Inr \<lparr>coeffList = cl, size_poly = sz + 1\<rparr>)))) (\<lambda>p'.
      seq (wr (coeffList p') (sint index) c) (\<lambda>cl.
      Inr (p'\<lparr>coeffList := cl\<rparr>)))"
    unfolding setCoeff_def Let_def index_def [symmetric] using cmp by (simp only: if_True)
  also have "\<dots> = Inr \<lparr>coeffList = map (\<lambda>j. if j < n then coeffList p ! j else if j < k then 0 else c)
                          [0..<Suc k], size_poly = index + 1\<rparr>"
    unfolding lenp a b c d seq.simps prod.case Poly.simps e by (simp only: Poly.simps d e seq.simps)
  finally show ?thesis .
qed

lemma setCoeff_inrange:
  fixes e :: int32
  defines "index \<equiv> (if e <s 0 then e * (- 1) else e)"
  assumes sz: "sint (size_poly p) = int n" and buf: "n \<le> length (coeffList p)"
    and ix: "sint index = int k" and lt: "k < n"
  shows "setCoeff junk c e p = Inr (p\<lparr>coeffList := (coeffList p)[k := c]\<rparr>)"
proof -
  have cmp: "\<not> size_poly p \<le>s index"
    using sz ix lt by (simp add: word_sle_eq)
  have w: "wr (coeffList p) (sint index) c = Inr ((coeffList p)[k := c])"
    unfolding ix using lt buf by simp
  have "setCoeff junk c e p =
      seq (Inr p) (\<lambda>p'.
      seq (wr (coeffList p') (sint index) c) (\<lambda>cl.
      Inr (p'\<lparr>coeffList := cl\<rparr>)))"
    unfolding setCoeff_def Let_def index_def [symmetric] using cmp by (simp only: if_False)
  also have "\<dots> = Inr (p\<lparr>coeffList := (coeffList p)[k := c]\<rparr>)"
    by (simp only: seq.simps w)
  finally show ?thesis .
qed

lemma poly_ok_iff: "poly_ok p \<longleftrightarrow> 1 \<le> sint (size_poly p) \<and> len p \<le> length (coeffList p)"
  by (simp add: poly_ok_def word_sle_eq)

lemma poly_ok_len: "poly_ok p \<Longrightarrow> sint (size_poly p) = int (len p)"
  by (simp add: poly_ok_iff len_def)

lemma poly_okI:
  "sint (size_poly p) = int n \<Longrightarrow> 1 \<le> n \<Longrightarrow> n \<le> length (coeffList p) \<Longrightarrow> poly_ok p"
  by (simp add: poly_ok_iff len_def)

subsection \<open>The loops of compare\<close>

declare compare_tail.simps [simp del] compare_head.simps [simp del]

lemma compare_tail_eq:
  "len larger \<le> length (coeffList larger) \<Longrightarrow>
   compare_tail i larger = Inr (\<forall>k. i \<le> k \<and> k < len larger \<longrightarrow> coeffList larger ! k = 0)"
proof (induction i larger rule: compare_tail.induct)
  case (1 i larger)
  show ?case
  proof (cases "i < len larger")
    case False
    then show ?thesis by (subst compare_tail.simps) auto
  next
    case True
    note lt = this
    show ?thesis
    proof (cases "coeffList larger ! i = 0")
      case False
      then have "\<not> (\<forall>k. i \<le> k \<and> k < len larger \<longrightarrow> coeffList larger ! k = 0)"
        using lt by auto
      then show ?thesis
        using lt False "1.prems" by (subst compare_tail.simps) simp
    next
      case True
      have "compare_tail i larger = compare_tail (Suc i) larger"
        using lt True "1.prems" by (subst compare_tail.simps) simp
      also have "\<dots> = Inr (\<forall>k. Suc i \<le> k \<and> k < len larger \<longrightarrow> coeffList larger ! k = 0)"
        using "1.IH" [of "coeffList larger ! i"] lt True "1.prems" by simp
      also have "(\<forall>k. Suc i \<le> k \<and> k < len larger \<longrightarrow> coeffList larger ! k = 0) \<longleftrightarrow>
          (\<forall>k. i \<le> k \<and> k < len larger \<longrightarrow> coeffList larger ! k = 0)"
        using True by (metis Suc_leI le_neq_implies_less Suc_leD)
      finally show ?thesis .
    qed
  qed
qed

lemma compare_head_eq:
  assumes "len smaller \<le> length (coeffList smaller)" and "len larger \<le> length (coeffList larger)"
    and "len smaller \<le> len larger"
  shows "compare_head i smaller larger =
     Inr ((\<forall>k. i \<le> k \<and> k < len smaller \<longrightarrow> coeffList smaller ! k = coeffList larger ! k) \<and>
          (\<forall>k. i \<le> k \<and> len smaller \<le> k \<and> k < len larger \<longrightarrow> coeffList larger ! k = 0))"
  using assms
proof (induction i smaller larger rule: compare_head.induct)
  case (1 i smaller larger)
  show ?case
  proof (cases "i < len smaller")
    case False
    have "compare_head i smaller larger = compare_tail i larger"
      using False by (subst compare_head.simps) simp
    also have "\<dots> = Inr (\<forall>k. i \<le> k \<and> k < len larger \<longrightarrow> coeffList larger ! k = 0)"
      using "1.prems" by (intro compare_tail_eq)
    also have "(\<forall>k. i \<le> k \<and> k < len larger \<longrightarrow> coeffList larger ! k = 0) \<longleftrightarrow>
        (\<forall>k. i \<le> k \<and> k < len smaller \<longrightarrow> coeffList smaller ! k = coeffList larger ! k) \<and>
        (\<forall>k. i \<le> k \<and> len smaller \<le> k \<and> k < len larger \<longrightarrow> coeffList larger ! k = 0)"
      using False by auto
    finally show ?thesis .
  next
    case True
    note lt = this
    have rs: "rd (coeffList smaller) (int i) = Inr (coeffList smaller ! i)"
      and rl: "rd (coeffList larger) (int i) = Inr (coeffList larger ! i)"
      using lt "1.prems" by simp_all
    show ?thesis
    proof (cases "coeffList smaller ! i = coeffList larger ! i")
      case False
      then have "\<not> (\<forall>k. i \<le> k \<and> k < len smaller \<longrightarrow> coeffList smaller ! k = coeffList larger ! k)"
        using lt by auto
      then show ?thesis
        using lt False rs rl by (subst compare_head.simps) simp
    next
      case True
      have "compare_head i smaller larger = compare_head (Suc i) smaller larger"
        using lt True rs rl by (subst compare_head.simps) simp
      also have "\<dots> = Inr ((\<forall>k. Suc i \<le> k \<and> k < len smaller \<longrightarrow>
            coeffList smaller ! k = coeffList larger ! k) \<and>
          (\<forall>k. Suc i \<le> k \<and> len smaller \<le> k \<and> k < len larger \<longrightarrow> coeffList larger ! k = 0))"
        using "1.IH" [OF lt rs rl] True "1.prems" by simp
      also have "(\<forall>k. Suc i \<le> k \<and> k < len smaller \<longrightarrow> coeffList smaller ! k = coeffList larger ! k) \<longleftrightarrow>
          (\<forall>k. i \<le> k \<and> k < len smaller \<longrightarrow> coeffList smaller ! k = coeffList larger ! k)"
        using True by (metis Suc_leI le_neq_implies_less Suc_leD)
      also have "(\<forall>k. Suc i \<le> k \<and> len smaller \<le> k \<and> k < len larger \<longrightarrow> coeffList larger ! k = 0) \<longleftrightarrow>
          (\<forall>k. i \<le> k \<and> len smaller \<le> k \<and> k < len larger \<longrightarrow> coeffList larger ! k = 0)"
        using lt by (metis Suc_leI le_neq_implies_less Suc_leD not_less)
      finally show ?thesis .
    qed
  qed
qed

lemma compare_eq:
  assumes "len smaller \<le> length (coeffList smaller)" and "len larger \<le> length (coeffList larger)"
    and "len smaller \<le> len larger"
  shows "compare smaller larger = Inr (spec_equal smaller larger)"
  unfolding compare_def spec_equal_def using compare_head_eq [OF assms, of 0] by simp

subsection \<open>The multiplication loops and operator*\<close>

declare mul_inner.simps [simp del] mul_outer.simps [simp del]

lemma mul_inner_eq:
  assumes "i < length a" and "m \<le> length b" and "i + m \<le> length pr"
  shows "mul_inner a b i j m pr =
     Inr (map (\<lambda>k. pr ! k + (if i + j \<le> k \<and> k < i + m then a ! i * b ! (k - i) else 0))
            [0..<length pr])"
  using assms
proof (induction a b i j m pr rule: mul_inner.induct)
  case (1 a b i j m pr)
  show ?case
  proof (cases "j < m")
    case False
    then show ?thesis
      by (subst mul_inner.simps) (auto intro!: nth_equalityI)
  next
    case True
    let ?pr' = "pr[i + j := pr ! (i + j) + a ! i * b ! j]"
    have r1: "rd pr (int (i + j)) = Inr (pr ! (i + j))"
      and r2: "rd a (int i) = Inr (a ! i)" and r3: "rd b (int j) = Inr (b ! j)"
      and w: "wr pr (int (i + j)) (pr ! (i + j) + a ! i * b ! j) = Inr ?pr'"
      using True "1.prems" by (simp_all add: rd_def wr_def nat_int_add)
    have "mul_inner a b i j m pr = mul_inner a b i (Suc j) m ?pr'"
      using True by (subst mul_inner.simps) (simp only: r1 r2 r3 w seq.simps if_True)
    also have "\<dots> = Inr (map (\<lambda>k. ?pr' ! k +
          (if i + Suc j \<le> k \<and> k < i + m then a ! i * b ! (k - i) else 0)) [0..<length ?pr'])"
      using "1.IH" [OF True r1 r2 r3 w] "1.prems" by simp
    also have "\<dots> = Inr (map (\<lambda>k. pr ! k +
          (if i + j \<le> k \<and> k < i + m then a ! i * b ! (k - i) else 0)) [0..<length pr])"
    proof -
      have "?pr' ! k + (if i + Suc j \<le> k \<and> k < i + m then a ! i * b ! (k - i) else 0) =
          pr ! k + (if i + j \<le> k \<and> k < i + m then a ! i * b ! (k - i) else 0)"
        if "k < length pr" for k
      proof (cases "k = i + j")
        case True
        then show ?thesis using that \<open>j < m\<close> by simp
      next
        case False
        then have "i + Suc j \<le> k \<longleftrightarrow> i + j \<le> k" by auto
        then show ?thesis using False by simp
      qed
      then show ?thesis by simp
    qed
    finally show ?thesis .
  qed
qed

lemma mul_outer_eq:
  assumes "n \<le> length a" and "m \<le> length b" and "n + m \<le> Suc (length pr)"
  shows "mul_outer a b i n m pr =
     Inr (map (\<lambda>k. pr ! k + (\<Sum>i' = i..<n. if i' \<le> k \<and> k < i' + m then a ! i' * b ! (k - i') else 0))
            [0..<length pr])"
  using assms
proof (induction a b i n m pr rule: mul_outer.induct)
  case (1 a b i n m pr)
  show ?case
  proof (cases "i < n")
    case False
    then show ?thesis
      by (subst mul_outer.simps) (auto intro!: nth_equalityI)
  next
    case True
    let ?pr' = "map (\<lambda>k. pr ! k + (if i + 0 \<le> k \<and> k < i + m then a ! i * b ! (k - i) else 0))
        [0..<length pr]"
    have inner: "mul_inner a b i 0 m pr = Inr ?pr'"
      using True "1.prems" by (intro mul_inner_eq) simp_all
    have "mul_outer a b i n m pr = mul_outer a b (Suc i) n m ?pr'"
      using True by (subst mul_outer.simps) (simp only: inner seq.simps if_True)
    also have "\<dots> = Inr (map (\<lambda>k. ?pr' ! k +
          (\<Sum>i' = Suc i..<n. if i' \<le> k \<and> k < i' + m then a ! i' * b ! (k - i') else 0))
          [0..<length ?pr'])"
      using "1.IH" [OF True inner] "1.prems" by simp
    also have "\<dots> = Inr (map (\<lambda>k. pr ! k +
          (\<Sum>i' = i..<n. if i' \<le> k \<and> k < i' + m then a ! i' * b ! (k - i') else 0))
          [0..<length pr])"
      using True by (simp add: sum.atLeast_Suc_lessThan add.assoc)
    finally show ?thesis .
  qed
qed

lemma sint_of_int_small:
  "- (2 ^ 31) \<le> x \<Longrightarrow> x < 2 ^ 31 \<Longrightarrow> sint (word_of_int x :: int32) = x"
  by (simp add: sint_sbintrunc' signed_take_bit_int_eq_self)

lemma word_of_sint: "word_of_int (sint w) = (w :: int32)"
  by simp

lemma inner_sum_delta:
  fixes i k m :: nat
  shows "(\<Sum>j < m. if i + j = k then f j else 0) = (if i \<le> k \<and> k < i + m then f (k - i) else (0 :: int32))"
proof -
  have el: "(if i + j = k then f j else 0) = (if j = k - i then (if i \<le> k then f j else 0) else 0)"
    for j
  proof (cases "i + j = k")
    case True
    then have "j = k - i" and "i \<le> k" by arith+
    then show ?thesis using True by simp
  next
    case False
    then have "\<not> (j = k - i \<and> i \<le> k)" by arith
    then show ?thesis using False by auto
  qed
  have "(\<Sum>j < m. if i + j = k then f j else 0) =
      (\<Sum>j \<in> {..<m}. if j = k - i then (if i \<le> k then f j else 0) else 0)"
    by (simp only: el)
  also have "\<dots> = (if k - i \<in> {..<m} then (if i \<le> k then f (k - i) else 0) else 0)"
    by (simp only: sum.delta' [of "{..<m}" "k - i" "\<lambda>j. if i \<le> k then f j else 0"] sum.delta finite_lessThan)
  also have "\<dots> = (if i \<le> k \<and> k < i + m then f (k - i) else 0)"
    by auto
  finally show ?thesis .
qed

lemma convolution_alt:
  "convolution p q k =
     (\<Sum>i = 0..<len p. if i \<le> k \<and> k < i + len q then coeffList p ! i * coeffList q ! (k - i) else 0)"
  unfolding convolution_def inner_sum_delta by (simp add: atLeast0LessThan)

lemma sizes_sum:
  assumes "sint (a :: int32) = int n" and "sint (b :: int32) = int m"
    and "1 \<le> n" and "1 \<le> m" and "int n + int m - 1 < 2 ^ 31"
  shows "sint (a + b - 2) = int (n + m - 2)" and "sint (a + b - 1) = int (n + m - 1)"
proof -
  have a: "a = word_of_int (int n)" and b: "b = word_of_int (int m)"
    using assms(1,2) word_of_sint [of a] word_of_sint [of b] by simp_all
  have "a + b - 2 = word_of_int (int n + int m - 2)" unfolding a b by simp
  then have "sint (a + b - 2) = int n + int m - 2"
    using assms(3-5) by (simp only: ) (rule sint_of_int_small; linarith)
  then show "sint (a + b - 2) = int (n + m - 2)" using assms(3,4) by simp
  have "a + b - 1 = word_of_int (int n + int m - 1)" unfolding a b by simp
  then have "sint (a + b - 1) = int n + int m - 1"
    using assms(3-5) by (simp only: ) (rule sint_of_int_small; linarith)
  then show "sint (a + b - 1) = int (n + m - 1)" using assms(3,4) by simp
qed

lemma Poly_default_eq: "Poly_default junk = Inr \<lparr>coeffList = [0], size_poly = 1\<rparr>"
  by (simp add: Poly_default_def new_int_def wr_def word_sless_alt)

lemma Poly_coeff_eq: "Poly_coeff junk c = Inr \<lparr>coeffList = [c], size_poly = 1\<rparr>"
  by (simp add: Poly_coeff_def new_int_def wr_def word_sless_alt)

lemma setCoeff_product_buffer:
  fixes e :: int32
  assumes e: "sint e = int k" and small: "int k < 2 ^ 31 - 1"
  shows "setCoeff junk 0 e \<lparr>coeffList = [0], size_poly = 1\<rparr> =
     Inr \<lparr>coeffList = map (\<lambda>_. 0) [0..<Suc k], size_poly = e + 1\<rparr>"
proof -
  let ?d = "\<lparr>coeffList = [0 :: int32], size_poly = 1\<rparr>"
  have nn: "\<not> e <s 0" using e by (simp add: word_sless_alt)
  have ix: "sint (if e <s 0 then e * (- 1) else e) = int k" using nn e by simp
  have sz: "sint (size_poly ?d) = int 1" by simp
  have buf: "1 \<le> length (coeffList ?d)" by simp
  show ?thesis
  proof (cases "1 \<le> k")
    case True
    have "setCoeff junk 0 e ?d =
        Inr \<lparr>coeffList = map (\<lambda>j. if j < 1 then coeffList ?d ! j else if j < k then 0 else 0)
          [0..<Suc k], size_poly = (if e <s 0 then e * (- 1) else e) + 1\<rparr>"
      using sz buf ix True small by (rule setCoeff_grow)
    also have "map (\<lambda>j. if j < 1 then coeffList ?d ! j else if j < k then 0 else 0) [0..<Suc k] =
        map (\<lambda>_. 0) [0..<Suc k]"
      by (intro map_cong refl) auto
    finally show ?thesis using nn by simp
  next
    case False
    then have k0: "k = 0" by simp
    then have e0: "e = 0" using e by (intro signed_word_eqI) simp
    have "setCoeff junk 0 e ?d = Inr (?d\<lparr>coeffList := (coeffList ?d)[k := 0]\<rparr>)"
      using sz buf ix by (rule setCoeff_inrange) (simp add: k0)
    then show ?thesis by (simp add: k0 e0)
  qed
qed

lemma operator_times_eq:
  assumes okp: "poly_ok p" and okq: "poly_ok q"
    and small: "int (len p) + int (len q) - 1 < 2 ^ 31"
  shows "operator_times junk p q =
     Inr \<lparr>coeffList = map (convolution p q) [0..<len p + len q - 1],
          size_poly = size_poly p + size_poly q - 1\<rparr>"
proof -
  let ?n = "len p" and ?m = "len q"
  have sp: "sint (size_poly p) = int ?n" and sq: "sint (size_poly q) = int ?m"
    using okp okq by (simp_all add: poly_ok_len)
  have n1: "1 \<le> ?n" and m1: "1 \<le> ?m" and bp: "?n \<le> length (coeffList p)"
    and bq: "?m \<le> length (coeffList q)"
    using okp okq sp sq by (simp_all add: poly_ok_iff)
  have e: "sint (size_poly p + size_poly q - 2) = int (?n + ?m - 2)"
    using sp sq n1 m1 small by (rule sizes_sum)
  have ksmall: "int (?n + ?m - 2) < 2 ^ 31 - 1" using small n1 m1 by simp
  have suc: "Suc (?n + ?m - 2) = ?n + ?m - 1" using n1 m1 by simp
  have b: "setCoeff junk 0 (size_poly p + size_poly q - 2) \<lparr>coeffList = [0], size_poly = 1\<rparr> =
      Inr \<lparr>coeffList = map (\<lambda>_. 0) [0..<?n + ?m - 1], size_poly = size_poly p + size_poly q - 1\<rparr>"
    using setCoeff_product_buffer [OF e ksmall, of junk] by (simp only: suc) simp
  have l: "mul_outer (coeffList p) (coeffList q) 0 ?n ?m (map (\<lambda>_. 0) [0..<?n + ?m - 1]) =
      Inr (map (\<lambda>k. map (\<lambda>_. 0) [0..<?n + ?m - 1] ! k +
        (\<Sum>i' = 0..<?n. if i' \<le> k \<and> k < i' + ?m then coeffList p ! i' * coeffList q ! (k - i') else 0))
        [0..<length (map (\<lambda>_. 0 :: int32) [0..<?n + ?m - 1])])"
    using bp bq n1 m1 by (intro mul_outer_eq) simp_all
  also have "\<dots> = Inr (map (convolution p q) [0..<?n + ?m - 1])"
    by (simp add: convolution_alt)
  finally have l': "mul_outer (coeffList p) (coeffList q) 0 ?n ?m (map (\<lambda>_. 0) [0..<?n + ?m - 1]) =
      Inr (map (convolution p q) [0..<?n + ?m - 1])" .
  show ?thesis
    unfolding operator_times_def by (simp only: Poly_default_eq seq.simps b l' Poly.simps)
qed

subsection \<open>The adding loops, operator+ and commutativity\<close>

declare add_loop.simps [simp del] sub_loop.simps [simp del]

lemma add_loop_eq:
  "n \<le> length src \<Longrightarrow> n \<le> length dst \<Longrightarrow>
   add_loop i n src dst =
     Inr (map (\<lambda>k. if i \<le> k \<and> k < n then dst ! k + src ! k else dst ! k) [0..<length dst])"
proof (induction i n src dst rule: add_loop.induct)
  case (1 i n src dst)
  show ?case
  proof (cases "i < n")
    case True
    let ?dst' = "dst[i := dst ! i + src ! i]"
    have r1: "rd dst (int i) = Inr (dst ! i)" and r2: "rd src (int i) = Inr (src ! i)"
      and w: "wr dst (int i) (dst ! i + src ! i) = Inr ?dst'"
      using True "1.prems" by simp_all
    have "add_loop i n src dst = add_loop (Suc i) n src ?dst'"
      using True by (subst add_loop.simps) (simp only: r1 r2 w seq.simps if_True)
    also have "\<dots> = Inr (map (\<lambda>k. if Suc i \<le> k \<and> k < n then ?dst' ! k + src ! k else ?dst' ! k)
        [0..<length dst])"
      using "1.IH" [OF True r1 r2 w] "1.prems" by simp
    also have "\<dots> = Inr (map (\<lambda>k. if i \<le> k \<and> k < n then dst ! k + src ! k else dst ! k)
        [0..<length dst])"
      using True by (auto simp: nth_list_update not_less_eq_eq dest: le_antisym)
    finally show ?thesis .
  next
    case False
    then show ?thesis
      by (subst add_loop.simps) (auto intro!: nth_equalityI)
  qed
qed

lemma sub_loop_eq:
  "n \<le> length src \<Longrightarrow> n \<le> length dst \<Longrightarrow>
   sub_loop i n src dst =
     Inr (map (\<lambda>k. if i \<le> k \<and> k < n then dst ! k - src ! k else dst ! k) [0..<length dst])"
proof (induction i n src dst rule: sub_loop.induct)
  case (1 i n src dst)
  show ?case
  proof (cases "i < n")
    case True
    let ?dst' = "dst[i := dst ! i - src ! i]"
    have r1: "rd dst (int i) = Inr (dst ! i)" and r2: "rd src (int i) = Inr (src ! i)"
      and w: "wr dst (int i) (dst ! i - src ! i) = Inr ?dst'"
      using True "1.prems" by simp_all
    have "sub_loop i n src dst = sub_loop (Suc i) n src ?dst'"
      using True by (subst sub_loop.simps) (simp only: r1 r2 w seq.simps if_True)
    also have "\<dots> = Inr (map (\<lambda>k. if Suc i \<le> k \<and> k < n then ?dst' ! k - src ! k else ?dst' ! k)
        [0..<length dst])"
      using "1.IH" [OF True r1 r2 w] "1.prems" by simp
    also have "\<dots> = Inr (map (\<lambda>k. if i \<le> k \<and> k < n then dst ! k - src ! k else dst ! k)
        [0..<length dst])"
      using True by (auto simp: nth_list_update not_less_eq_eq dest: le_antisym)
    finally show ?thesis .
  next
    case False
    then show ?thesis
      by (subst sub_loop.simps) (auto intro!: nth_equalityI)
  qed
qed

lemma Poly_copy_eq:
  assumes "poly_ok orig"
  shows "Poly_copy junk orig =
     Inr \<lparr>coeffList = map (\<lambda>j. coeffList orig ! j) [0..<len orig], size_poly = size_poly orig\<rparr>"
proof -
  have s: "sint (size_poly orig) = int (len orig)" using assms by (rule poly_ok_len)
  have b: "len orig \<le> length (coeffList orig)" using assms by (simp add: poly_ok_iff)
  have n: "new_int junk (size_poly orig) = Inr (map junk [0..<len orig])"
    using s by (rule new_int_ok)
  have c: "copy_loop 0 (len orig) (coeffList orig) (map junk [0..<len orig]) =
      Inr (map (\<lambda>j. if j < len orig then coeffList orig ! j else junk j) [0..<len orig])"
    using b by (intro copy_fresh) simp_all
  have e: "map (\<lambda>j. if j < len orig then coeffList orig ! j else junk j) [0..<len orig] =
      map (\<lambda>j. coeffList orig ! j) [0..<len orig]"
    by (intro map_cong refl) simp
  show ?thesis
    unfolding Poly_copy_def by (simp only: n c e seq.simps)
qed

text \<open>The sum as \<open>operator+\<close> builds it: a copy of \<open>big\<close>, with \<open>small\<close> added to its prefix.\<close>

definition added :: "Poly \<Rightarrow> Poly \<Rightarrow> Poly" where
  "added big small =
     \<lparr>coeffList = map (\<lambda>k. if k < len small then coeffList big ! k + coeffList small ! k
                             else coeffList big ! k) [0..<len big],
      size_poly = size_poly big\<rparr>"

lemma add_into_copy:
  assumes ok: "poly_ok big" and oks: "poly_ok small" and le: "len small \<le> len big"
  shows "seq (Poly_copy junk big) (\<lambda>sum.
         seq (add_loop 0 (len small) (coeffList small) (coeffList sum)) (\<lambda>cl.
         Inr (sum\<lparr>coeffList := cl\<rparr>))) = Inr (added big small)"
proof -
  let ?c = "map (\<lambda>j. coeffList big ! j) [0..<len big]"
  have bs: "len small \<le> length (coeffList small)" using oks by (simp add: poly_ok_iff)
  have a: "add_loop 0 (len small) (coeffList small) ?c =
      Inr (map (\<lambda>k. if 0 \<le> k \<and> k < len small then ?c ! k + coeffList small ! k else ?c ! k)
        [0..<length ?c])"
    using bs le by (intro add_loop_eq) simp_all
  also have "\<dots> = Inr (coeffList (added big small))"
    unfolding added_def by simp
  finally have a': "add_loop 0 (len small) (coeffList small) ?c = Inr (coeffList (added big small))" .
  show ?thesis
    unfolding Poly_copy_eq [OF ok] seq.simps Poly.select_convs a' by (simp add: added_def)
qed

lemma operator_plus_eq:
  assumes okp: "poly_ok p" and okq: "poly_ok q"
  shows "operator_plus junk p q = Inr (if len q < len p then added p q else added q p)"
proof -
  have sp: "sint (size_poly p) = int (len p)" and sq: "sint (size_poly q) = int (len q)"
    using okp okq by (simp_all add: poly_ok_len)
  have c: "size_poly q <s size_poly p \<longleftrightarrow> len q < len p"
    using sp sq by (simp add: word_sless_alt)
  show ?thesis
  proof (cases "len q < len p")
    case True
    then show ?thesis
      unfolding operator_plus_def using c add_into_copy [OF okp okq, of junk] by simp
  next
    case False
    then show ?thesis
      unfolding operator_plus_def using c add_into_copy [OF okq okp, of junk] by simp
  qed
qed

lemma added_ok: "poly_ok big \<Longrightarrow> poly_ok (added big small)"
  by (simp add: poly_ok_iff added_def len_def)

lemma added_commute:
  assumes okp: "poly_ok p" and okq: "poly_ok q" and eq: "len p = len q"
  shows "added p q = added q p"
proof -
  have "sint (size_poly p) = sint (size_poly q)"
    using okp okq eq by (simp add: poly_ok_len)
  then have "size_poly p = size_poly q" by (rule signed_word_eqI)
  moreover have "map (\<lambda>k. if k < len q then coeffList p ! k + coeffList q ! k else coeffList p ! k)
        [0..<len p] =
      map (\<lambda>k. if k < len p then coeffList q ! k + coeffList p ! k else coeffList q ! k) [0..<len q]"
    unfolding eq by (intro map_cong refl) (simp add: add.commute)
  ultimately show ?thesis by (simp add: added_def)
qed

lemma operator_plus_commute:
  assumes okp: "poly_ok p" and okq: "poly_ok q"
  shows "operator_plus junk p q = operator_plus junk q p"
  unfolding operator_plus_eq [OF okp okq] operator_plus_eq [OF okq okp]
  using added_commute [OF okp okq] by (cases "len p" "len q" rule: linorder_cases) simp_all

lemma operator_eq_refl:
  assumes "poly_ok r"
  shows "operator_eq r r = Inr True"
proof -
  have b: "len r \<le> length (coeffList r)" using assms by (simp add: poly_ok_iff)
  have "compare r r = Inr (spec_equal r r)" using b b by (rule compare_eq) simp
  moreover have "spec_equal r r" by (auto simp: spec_equal_def)
  ultimately show ?thesis by (simp add: operator_eq_def)
qed

lemma convolution_commute: "convolution p q k = convolution q p k"
proof -
  have "convolution p q k =
      (\<Sum>j < len q. \<Sum>i < len p. if i + j = k then coeffList p ! i * coeffList q ! j else 0)"
    unfolding convolution_def by (rule sum.swap)
  also have "\<dots> = convolution q p k"
    unfolding convolution_def by (intro sum.cong refl) (simp add: add.commute mult.commute)
  finally show ?thesis .
qed

lemma operator_times_commute:
  assumes okp: "poly_ok p" and okq: "poly_ok q"
    and small: "int (len p) + int (len q) - 1 < 2 ^ 31"
  shows "operator_times junk p q = operator_times junk q p"
proof -
  have small': "int (len q) + int (len p) - 1 < 2 ^ 31" using small by simp
  have "map (convolution p q) [0..<len p + len q - 1] = map (convolution q p) [0..<len q + len p - 1]"
    by (simp add: add.commute convolution_commute [of p q])
  then show ?thesis
    unfolding operator_times_eq [OF okp okq small] operator_times_eq [OF okq okp small']
    by (simp add: add.commute)
qed

lemma product_ok:
  assumes okp: "poly_ok p" and okq: "poly_ok q"
    and small: "int (len p) + int (len q) - 1 < 2 ^ 31"
  shows "poly_ok \<lparr>coeffList = map (convolution p q) [0..<len p + len q - 1],
          size_poly = size_poly p + size_poly q - 1\<rparr>"
proof -
  have sp: "sint (size_poly p) = int (len p)" and sq: "sint (size_poly q) = int (len q)"
    using okp okq by (simp_all add: poly_ok_len)
  have n1: "1 \<le> len p" and m1: "1 \<le> len q"
    using okp okq sp sq by (simp_all add: poly_ok_iff)
  have "sint (size_poly p + size_poly q - 1) = int (len p + len q - 1)"
    using sp sq n1 m1 small by (rule sizes_sum(2))
  then show ?thesis
    by (intro poly_okI [where n = "len p + len q - 1"]) (use n1 m1 in simp_all)
qed

lemma setCoeff_int_max:
  "setCoeff junk c 2147483647 \<lparr>coeffList = [0], size_poly = 1\<rparr> = Inl BadAlloc"
proof -
  have a: "\<not> (2147483647 :: int32) <s 0" by (simp add: word_sless_alt)
  have b: "(1 :: int32) \<le>s 2147483647" by (simp add: word_sle_eq)
  have c: "(2147483647 + 1 :: int32) <s 0" by (simp add: word_sless_alt)
  have n: "new_int junk (2147483647 + 1) = Inl BadAlloc"
    by (simp only: new_int_def c if_True)
  show ?thesis
    by (simp only: setCoeff_def Let_def a b n if_True if_False Poly.select_convs seq.simps)
qed

subsection \<open>What every returned object satisfies\<close>

lemma seq_Inr_iff: "seq m f = Inr y \<longleftrightarrow> (\<exists>x. m = Inr x \<and> f x = Inr y)"
  by (cases m) auto

lemma wr_Inr: "wr a k v = Inr a' \<Longrightarrow> length a' = length a \<and> 0 \<le> k \<and> nat k < length a"
  by (auto simp: wr_def split: if_splits)

lemma zero_loop_length: "zero_loop i n dst = Inr r \<Longrightarrow> length r = length dst"
proof (induction i n dst rule: zero_loop.induct)
  case (1 i n dst)
  show ?case
  proof (cases "i < n")
    case True
    from "1.prems" True obtain d where w: "wr dst (int i) 0 = Inr d" and r: "zero_loop (Suc i) n d = Inr r"
      by (subst (asm) zero_loop.simps) (auto simp: seq_Inr_iff simp del: wr_int)
    from "1.IH" [OF True w r] wr_Inr [OF w] show ?thesis by simp
  next
    case False
    with "1.prems" show ?thesis by (subst (asm) zero_loop.simps) simp
  qed
qed

lemma add_loop_length: "add_loop i n src dst = Inr r \<Longrightarrow> length r = length dst"
proof (induction i n src dst rule: add_loop.induct)
  case (1 i n src dst)
  show ?case
  proof (cases "i < n")
    case True
    from "1.prems" True obtain x y d where a: "rd dst (int i) = Inr x" and b: "rd src (int i) = Inr y"
      and w: "wr dst (int i) (x + y) = Inr d" and r: "add_loop (Suc i) n src d = Inr r"
      by (subst (asm) add_loop.simps) (auto simp: seq_Inr_iff simp del: wr_int rd_int)
    from "1.IH" [OF True a b w r] wr_Inr [OF w] show ?thesis by simp
  next
    case False
    with "1.prems" show ?thesis by (subst (asm) add_loop.simps) simp
  qed
qed

lemma sub_loop_length: "sub_loop i n src dst = Inr r \<Longrightarrow> length r = length dst"
proof (induction i n src dst rule: sub_loop.induct)
  case (1 i n src dst)
  show ?case
  proof (cases "i < n")
    case True
    from "1.prems" True obtain x y d where a: "rd dst (int i) = Inr x" and b: "rd src (int i) = Inr y"
      and w: "wr dst (int i) (x - y) = Inr d" and r: "sub_loop (Suc i) n src d = Inr r"
      by (subst (asm) sub_loop.simps) (auto simp: seq_Inr_iff simp del: wr_int rd_int)
    from "1.IH" [OF True a b w r] wr_Inr [OF w] show ?thesis by simp
  next
    case False
    with "1.prems" show ?thesis by (subst (asm) sub_loop.simps) simp
  qed
qed

lemma new_int_Inr:
  "new_int junk n = Inr cl \<Longrightarrow> 0 \<le> sint n \<and> length cl = nat (sint n)"
  by (auto simp: new_int_def word_sless_alt split: if_splits)

lemma Poly_coeff_exp_ok:
  assumes "Poly_coeff_exp junk c e = Inr p"
  shows "poly_ok p"
proof -
  define sz where "sz = (if e <s 0 then e * (- 1) + 1 else e + 1)"
  from assms obtain cl0 cl1 cl2 where n: "new_int junk sz = Inr cl0"
    and z: "zero_loop 0 (nat (sint (sz - 1))) cl0 = Inr cl1"
    and w: "wr cl1 (sint (sz - 1)) c = Inr cl2"
    and p: "p = \<lparr>coeffList = cl2, size_poly = sz\<rparr>"
    unfolding Poly_coeff_exp_def Let_def sz_def [symmetric] by (auto simp: seq_Inr_iff)
  have l: "length cl2 = nat (sint sz)" and nn: "0 \<le> sint sz"
    using new_int_Inr [OF n] zero_loop_length [OF z] wr_Inr [OF w] by simp_all
  have "0 < length cl2" using wr_Inr [OF w] by auto
  then have "1 \<le> sint sz" using l by simp
  then show ?thesis using l by (simp add: p poly_ok_iff len_def)
qed

lemma seq_assoc: "seq (seq m f) g = seq m (\<lambda>x. seq (f x) g)"
  by (cases m) auto

lemma setCoeff_ok:
  assumes ok: "poly_ok p" and r: "setCoeff junk c e p = Inr p'"
  shows "poly_ok p'"
proof -
  define index where "index = (if e <s 0 then e * (- 1) else e)"
  have sz: "sint (size_poly p) = int (len p)" using ok by (rule poly_ok_len)
  have buf: "len p \<le> length (coeffList p)" and pos: "1 \<le> len p"
    using ok sz by (simp_all add: poly_ok_iff)
  show ?thesis
  proof (cases "size_poly p \<le>s index")
    case True
    then have ge: "int (len p) \<le> sint index" using sz by (simp add: word_sle_eq)
    define k where "k = nat (sint index)"
    have ix: "sint (if e <s 0 then e * (- 1) else e) = int k"
      using ge by (simp add: k_def index_def)
    have le: "len p \<le> k" using ge by (simp add: k_def)
    have small: "int k < 2 ^ 31 - 1"
    proof (rule ccontr)
      assume "\<not> int k < 2 ^ 31 - 1"
      then have "sint index = 2147483647"
        using sint_lt [of index] ge by (simp add: k_def)
      then have "sint index = sint (2147483647 :: int32)" by simp
      then have i: "index = 2147483647" by (rule signed_word_eqI)
      have neg: "(2147483647 + 1 :: int32) <s 0" by (simp add: word_sless_alt)
      have "new_int junk (index + 1) = Inl BadAlloc"
        unfolding i by (simp only: new_int_def neg if_True)
      then have "setCoeff junk c e p = Inl BadAlloc"
        unfolding setCoeff_def Let_def index_def [symmetric] using True by simp
      with r show False by simp
    qed
    have "setCoeff junk c e p =
        Inr \<lparr>coeffList = map (\<lambda>j. if j < len p then coeffList p ! j else if j < k then 0 else c)
          [0..<Suc k], size_poly = (if e <s 0 then e * (- 1) else e) + 1\<rparr>"
      using sz buf ix le small by (rule setCoeff_grow)
    with r have p': "p' = \<lparr>coeffList = map (\<lambda>j. if j < len p then coeffList p ! j
          else if j < k then 0 else c) [0..<Suc k], size_poly = index + 1\<rparr>"
      by (simp add: index_def)
    have "sint (index + 1) = int (Suc k)"
      using sint_plus_one [of index] small ix by (simp add: index_def)
    then show ?thesis
      unfolding p' by (intro poly_okI [where n = "Suc k"]) simp_all
  next
    case False
    from r False obtain cl where w: "wr (coeffList p) (sint index) c = Inr cl"
      and p': "p' = p\<lparr>coeffList := cl\<rparr>"
      unfolding setCoeff_def Let_def index_def [symmetric] by (auto simp: seq_Inr_iff)
    show ?thesis
      using ok wr_Inr [OF w] by (simp add: p' poly_ok_iff len_def)
  qed
qed

lemma operator_assign_ok:
  assumes ok: "poly_ok (s rhs)" and okt: "poly_ok (s this)"
    and r: "operator_assign junk s this rhs = Inr s'"
  shows "poly_ok (s' this)"
proof (cases "this = rhs")
  case True
  with r okt show ?thesis by (simp add: operator_assign_def)
next
  case False
  have "operator_assign junk s this rhs =
      seq (Poly_copy junk (s rhs)) (\<lambda>c. Inr (s(this := c)))"
    using False unfolding operator_assign_def Poly_copy_def
    by (simp add: seq_assoc)
  with r have "s' = s(this := \<lparr>coeffList = map (\<lambda>j. coeffList (s rhs) ! j) [0..<len (s rhs)],
      size_poly = size_poly (s rhs)\<rparr>)"
    by (simp add: Poly_copy_eq [OF ok])
  then show ?thesis
    using ok by (simp add: poly_ok_iff len_def)
qed

lemma grown_ok:
  assumes ok: "poly_ok this"
    and r: "(if size_poly this <s size_poly rhs then setCoeff junk 0 (size_poly rhs - 1) this
             else Inr this) = Inr t"
  shows "poly_ok t"
  using ok r setCoeff_ok [of this junk 0 "size_poly rhs - 1" t] by (auto split: if_splits)

lemma operator_plus_assign_ok:
  assumes ok: "poly_ok this" and r: "operator_plus_assign junk this rhs = Inr p'"
  shows "poly_ok p'"
proof -
  from r obtain t cl where g: "(if size_poly this <s size_poly rhs
        then setCoeff junk 0 (size_poly rhs - 1) this else Inr this) = Inr t"
    and a: "add_loop 0 (len t) (coeffList rhs) (coeffList t) = Inr cl"
    and p': "p' = t\<lparr>coeffList := cl\<rparr>"
    unfolding operator_plus_assign_def by (auto simp: seq_Inr_iff)
  have "poly_ok t" using ok g by (rule grown_ok)
  then show ?thesis
    using add_loop_length [OF a] by (simp add: p' poly_ok_iff len_def)
qed

lemma operator_minus_assign_ok:
  assumes ok: "poly_ok this" and r: "operator_minus_assign junk this rhs = Inr p'"
  shows "poly_ok p'"
proof -
  from r obtain t cl where g: "(if size_poly this <s size_poly rhs
        then setCoeff junk 0 (size_poly rhs - 1) this else Inr this) = Inr t"
    and a: "sub_loop 0 (len t) (coeffList rhs) (coeffList t) = Inr cl"
    and p': "p' = t\<lparr>coeffList := cl\<rparr>"
    unfolding operator_minus_assign_def by (auto simp: seq_Inr_iff)
  have "poly_ok t" using ok g by (rule grown_ok)
  then show ?thesis
    using sub_loop_length [OF a] by (simp add: p' poly_ok_iff len_def)
qed

lemma alloc_small:
  fixes a b :: int32
  assumes a: "sint a = int n" and b: "sint b = int m" and n1: "1 \<le> n" and m1: "1 \<le> m"
    and nn: "\<not> a + b - 1 <s 0"
  shows "int n + int m - 1 < 2 ^ 31"
proof (rule ccontr)
  assume "\<not> int n + int m - 1 < 2 ^ 31"
  then have lo: "2147483648 \<le> int n + int m - 1" by simp
  have hi: "int n < 2147483648" "int m < 2147483648"
    using sint_lt [of a] sint_lt [of b] a b by simp_all
  define y where "y = int n + int m - 1 + 2147483648"
  have y: "4294967296 \<le> y" "y - 4294967296 < 4294967296" using lo hi by (simp_all add: y_def)
  have "y mod 4294967296 = (y - 4294967296) mod 4294967296" by simp
  also have "\<dots> = y - 4294967296" using y by (intro mod_pos_pos_trivial) simp_all
  finally have m: "y mod 4294967296 = y - 4294967296" .
  have g: "sint (word_of_int x :: int32) = (x + 2147483648) mod 4294967296 - 2147483648"
    for x :: int
    by (simp add: int_word_sint)
  have "a + b - 1 = word_of_int (int n + int m - 1)"
    using a b word_of_sint [of a] word_of_sint [of b] by simp
  then have "sint (a + b - 1) = (int n + int m - 1 + 2147483648) mod 4294967296 - 2147483648"
    by (simp only: g)
  then have "sint (a + b - 1) = y - 4294967296 - 2147483648"
    using m by (simp add: y_def)
  then have "sint (a + b - 1) < 0" using hi by (simp add: y_def)
  with nn show False by (simp add: word_sless_alt)
qed

lemma operator_times_assign_eq:
  assumes okp: "poly_ok p" and okq: "poly_ok q"
    and small: "int (len p) + int (len q) - 1 < 2 ^ 31"
  shows "operator_times_assign junk p q =
     Inr (p\<lparr>coeffList := map (\<lambda>k. junk k + convolution p q k) [0..<len p + len q - 1]\<rparr>)"
proof -
  let ?n = "len p" and ?m = "len q"
  have sp: "sint (size_poly p) = int ?n" and sq: "sint (size_poly q) = int ?m"
    using okp okq by (simp_all add: poly_ok_len)
  have n1: "1 \<le> ?n" and m1: "1 \<le> ?m" and bp: "?n \<le> length (coeffList p)"
    and bq: "?m \<le> length (coeffList q)"
    using okp okq sp sq by (simp_all add: poly_ok_iff)
  have "sint (size_poly p + size_poly q - 1) = int (?n + ?m - 1)"
    using sp sq n1 m1 small by (rule sizes_sum(2))
  then have a: "new_int junk (size_poly p + size_poly q - 1) = Inr (map junk [0..<?n + ?m - 1])"
    by (rule new_int_ok)
  have "mul_outer (coeffList p) (coeffList q) 0 ?n ?m (map junk [0..<?n + ?m - 1]) =
      Inr (map (\<lambda>k. map junk [0..<?n + ?m - 1] ! k +
        (\<Sum>i' = 0..<?n. if i' \<le> k \<and> k < i' + ?m then coeffList p ! i' * coeffList q ! (k - i') else 0))
        [0..<length (map junk [0..<?n + ?m - 1])])"
    using bp bq n1 m1 by (intro mul_outer_eq) simp_all
  also have "\<dots> = Inr (map (\<lambda>k. junk k + convolution p q k) [0..<?n + ?m - 1])"
    by (simp add: convolution_alt)
  finally have l: "mul_outer (coeffList p) (coeffList q) 0 ?n ?m (map junk [0..<?n + ?m - 1]) =
      Inr (map (\<lambda>k. junk k + convolution p q k) [0..<?n + ?m - 1])" .
  show ?thesis
    unfolding operator_times_assign_def by (simp only: a l seq.simps)
qed

lemma operator_times_assign_ok:
  assumes okp: "poly_ok this" and okq: "poly_ok rhs"
    and r: "operator_times_assign junk this rhs = Inr p'"
  shows "poly_ok p'"
proof -
  have sp: "sint (size_poly this) = int (len this)" and sq: "sint (size_poly rhs) = int (len rhs)"
    using okp okq by (simp_all add: poly_ok_len)
  have n1: "1 \<le> len this" and m1: "1 \<le> len rhs"
    using okp okq sp sq by (simp_all add: poly_ok_iff)
  from r obtain pr where "new_int junk (size_poly this + size_poly rhs - 1) = Inr pr"
    unfolding operator_times_assign_def by (auto simp: seq_Inr_iff)
  then have "\<not> size_poly this + size_poly rhs - 1 <s 0"
    by (auto simp: new_int_def split: if_splits)
  then have small: "int (len this) + int (len rhs) - 1 < 2 ^ 31"
    using sp sq n1 m1 by (intro alloc_small [of "size_poly this" _ "size_poly rhs"])
  from r have "p' = this\<lparr>coeffList := map (\<lambda>k. junk k + convolution this rhs k)
      [0..<len this + len rhs - 1]\<rparr>"
    by (simp add: operator_times_assign_eq [OF okp okq small])
  then show ?thesis
    using okp m1 by (simp add: poly_ok_iff len_def)
qed

subsection \<open>operator>>\<close>

lemma read_loop_run:
  assumes "c \<noteq> 0 \<or> e \<noteq> 0" and "\<forall>(c', e') \<in> set ps. c' \<noteq> 0 \<or> e' \<noteq> 0"
  shows "read_loop junk (tokens ps @ [0, 0] @ rest) t c e =
     Some (case apply_pairs junk ((c, e) # ps) t of Inl err \<Rightarrow> Inl err | Inr t' \<Rightarrow> Inr (rest, t'))"
  using assms
proof (induction ps arbitrary: t c e)
  case Nil
  show ?case
  proof (cases "setCoeff junk c e t")
    case (Inl err)
    then show ?thesis using Nil.prems by (subst read_loop.simps) simp
  next
    case (Inr t')
    have "read_loop junk rest t' 0 0 = Some (Inr (rest, t'))"
      by (subst read_loop.simps) simp
    then show ?thesis using Nil.prems Inr by (subst read_loop.simps) simp
  qed
next
  case (Cons p ps)
  obtain c' e' where p: "p = (c', e')" by (cases p)
  have nz: "c' \<noteq> 0 \<or> e' \<noteq> 0" and rest: "\<forall>(c', e') \<in> set ps. c' \<noteq> 0 \<or> e' \<noteq> 0"
    using Cons.prems(2) by (simp_all add: p)
  show ?case
  proof (cases "setCoeff junk c e t")
    case (Inl err)
    then show ?thesis using Cons.prems(1) by (subst read_loop.simps) simp
  next
    case (Inr t')
    have "read_loop junk (tokens (p # ps) @ [0, 0] @ rest) t c e =
        read_loop junk (tokens ps @ [0, 0] @ rest) t' c' e'"
      using Cons.prems(1) Inr by (subst read_loop.simps) (simp add: p)
    also have "\<dots> = Some (case apply_pairs junk ((c', e') # ps) t' of
        Inl err \<Rightarrow> Inl err | Inr t'' \<Rightarrow> Inr (rest, t''))"
      using nz rest by (rule Cons.IH)
    finally show ?thesis using Inr by (simp add: p)
  qed
qed

lemma zero_loop_reset:
  assumes "poly_ok t"
  shows "zero_loop 0 (len t) (coeffList t) = Inr (coeffList (reset_entries t))"
proof -
  have "len t \<le> length (coeffList t)" using assms by (simp add: poly_ok_iff)
  then have "zero_loop 0 (len t) (coeffList t) =
      Inr (map (\<lambda>k. if 0 \<le> k \<and> k < len t then 0 else coeffList t ! k) [0..<length (coeffList t)])"
    by (rule zero_loop_eq)
  then show ?thesis by (simp add: reset_entries_def)
qed

lemma operator_in_run:
  assumes ok: "poly_ok target" and nz: "\<forall>(c, e) \<in> set ps. c \<noteq> 0 \<or> e \<noteq> 0"
  shows "operator_in junk coeff0 exp0 (tokens ps @ [0, 0] @ rest) target =
     Some (case apply_pairs junk ps (reset_entries target) of
             Inl err \<Rightarrow> Inl err | Inr t' \<Rightarrow> Inr (rest, t'))"
proof (cases ps)
  case Nil
  have "read_loop junk rest (reset_entries target) 0 0 = Some (Inr (rest, reset_entries target))"
    by (subst read_loop.simps) simp
  then show ?thesis
    unfolding operator_in_def using zero_loop_reset [OF ok] by (simp add: Nil reset_entries_def)
next
  case (Cons p ps')
  obtain c e where p: "p = (c, e)" by (cases p)
  have a: "c \<noteq> 0 \<or> e \<noteq> 0" and b: "\<forall>(c', e') \<in> set ps'. c' \<noteq> 0 \<or> e' \<noteq> 0"
    using nz by (simp_all add: Cons p)
  have "operator_in junk coeff0 exp0 (tokens ps @ [0, 0] @ rest) target =
      read_loop junk (tokens ps' @ [0, 0] @ rest) (reset_entries target) c e"
    unfolding operator_in_def using zero_loop_reset [OF ok] by (simp add: Cons p reset_entries_def)
  also have "\<dots> = Some (case apply_pairs junk ((c, e) # ps') (reset_entries target) of
      Inl err \<Rightarrow> Inl err | Inr t' \<Rightarrow> Inr (rest, t'))"
    using a b by (rule read_loop_run)
  finally show ?thesis by (simp add: Cons p)
qed

lemma reset_entries_ok: "poly_ok t \<Longrightarrow> poly_ok (reset_entries t)"
  by (simp add: poly_ok_iff reset_entries_def len_def)

lemma read_loop_ok:
  assumes "read_loop junk input target coeff exp = Some y"
  shows "poly_ok target \<longrightarrow> (\<forall>rest t'. y = Inr (rest, t') \<longrightarrow> poly_ok t')"
proof (rule read_loop.raw_induct [where P = "\<lambda>junk input target coeff exp y.
    poly_ok target \<longrightarrow> (\<forall>rest t'. y = Inr (rest, t') \<longrightarrow> poly_ok t')", OF _ assms])
  fix rl :: "(nat \<Rightarrow> int32) \<Rightarrow> istream \<Rightarrow> Poly \<Rightarrow> int32 \<Rightarrow> int32 \<Rightarrow> (error + istream \<times> Poly) option"
  fix junk input target coeff exp y
  assume IH: "\<And>j i t c e z. rl j i t c e = Some z \<Longrightarrow>
      poly_ok t \<longrightarrow> (\<forall>rest t'. z = Inr (rest, t') \<longrightarrow> poly_ok t')"
  assume body: "(if coeff \<noteq> 0 \<or> exp \<noteq> 0
      then case setCoeff junk coeff exp target of Inl e \<Rightarrow> Some (Inl e)
           | Inr target' \<Rightarrow>
               (case extract_int input coeff of (input1, coeff') \<Rightarrow>
                case extract_int input1 exp of (input2, exp') \<Rightarrow>
                  rl junk input2 target' coeff' exp')
      else Some (Inr (input, target))) = Some y"
  show "poly_ok target \<longrightarrow> (\<forall>rest t'. y = Inr (rest, t') \<longrightarrow> poly_ok t')"
  proof (intro impI allI)
    fix rest t'
    assume ok: "poly_ok target" and y: "y = Inr (rest, t')"
    show "poly_ok t'"
    proof (cases "coeff \<noteq> 0 \<or> exp \<noteq> 0")
      case False
      with body y ok show ?thesis by simp
    next
      case True
      show ?thesis
      proof (cases "setCoeff junk coeff exp target")
        case (Inl err)
        with body True y show ?thesis by simp
      next
        case (Inr t1)
        have ok1: "poly_ok t1" using ok Inr by (rule setCoeff_ok)
        from body True Inr obtain i2 c2 e2 where "rl junk i2 t1 c2 e2 = Some y"
          by (auto split: prod.splits)
        from IH [OF this] ok1 y show ?thesis by simp
      qed
    qed
  qed
qed

lemma operator_in_ok:
  assumes ok: "poly_ok target"
    and r: "operator_in junk coeff0 exp0 input target = Some (Inr (rest, t'))"
  shows "poly_ok t'"
proof -
  from r obtain i2 c e where "read_loop junk i2 (reset_entries target) c e = Some (Inr (rest, t'))"
    unfolding operator_in_def using zero_loop_reset [OF ok]
    by (auto simp: reset_entries_def split: prod.splits)
  from read_loop_ok [OF this] reset_entries_ok [OF ok] show ?thesis by simp
qed

lemma setCoeff_returns:
  assumes ok: "poly_ok p" and small: "\<bar>sint e\<bar> < 2 ^ 31 - 1"
  shows "\<exists>p'. setCoeff junk c e p = Inr p' \<and> poly_ok p'"
proof -
  define k where "k = nat \<bar>sint e\<bar>"
  have ix: "sint (if e <s 0 then e * (- 1) else e) = int k"
    using small sint_index [of e] by (simp add: k_def)
  have sz: "sint (size_poly p) = int (len p)" using ok by (rule poly_ok_len)
  have buf: "len p \<le> length (coeffList p)" using ok by (simp add: poly_ok_iff)
  have ksmall: "int k < 2 ^ 31 - 1" using small by (simp add: k_def)
  have "\<exists>p'. setCoeff junk c e p = Inr p'"
  proof (cases "len p \<le> k")
    case True
    from setCoeff_grow [OF sz buf ix True ksmall] show ?thesis by blast
  next
    case False
    then have "k < len p" by simp
    from setCoeff_inrange [OF sz buf ix this] show ?thesis by blast
  qed
  then obtain p' where r: "setCoeff junk c e p = Inr p'" ..
  moreover have "poly_ok p'" using ok r by (rule setCoeff_ok)
  ultimately show ?thesis by blast
qed

lemma apply_pairs_returns:
  assumes "poly_ok t" and "\<forall>(c, e) \<in> set ps. \<bar>sint e\<bar> < 2 ^ 31 - 1"
  shows "\<exists>t'. apply_pairs junk ps t = Inr t' \<and> poly_ok t'"
  using assms
proof (induction ps arbitrary: t)
  case Nil
  then show ?case by simp
next
  case (Cons p ps)
  obtain c e where p: "p = (c, e)" by (cases p)
  have small: "\<bar>sint e\<bar> < 2 ^ 31 - 1" and rest: "\<forall>(c, e) \<in> set ps. \<bar>sint e\<bar> < 2 ^ 31 - 1"
    using Cons.prems(2) by (simp_all add: p)
  from setCoeff_returns [OF Cons.prems(1) small, of junk c]
  obtain t1 where s: "setCoeff junk c e t = Inr t1" and ok1: "poly_ok t1" by blast
  from Cons.IH [OF ok1 rest] obtain t' where "apply_pairs junk ps t1 = Inr t'" and "poly_ok t'"
    by blast
  then show ?case by (simp add: p s)
qed

subsection \<open>Sample runs\<close>

lemma example_setCoeff_grow:
  "setCoeff junk 5 2 \<lparr>coeffList = [0], size_poly = 1\<rparr> = Inr \<lparr>coeffList = [0, 0, 5], size_poly = 3\<rparr>"
proof -
  let ?d = "\<lparr>coeffList = [0 :: int32], size_poly = 1\<rparr>"
  have nn: "\<not> (2 :: int32) <s 0" by (simp add: word_sless_alt)
  have "setCoeff junk 5 2 ?d =
      Inr \<lparr>coeffList = map (\<lambda>j. if j < 1 then coeffList ?d ! j else if j < 2 then 0 else 5)
        [0..<Suc 2], size_poly = (if (2 :: int32) <s 0 then 2 * (- 1) else 2) + 1\<rparr>"
    by (rule setCoeff_grow [where n = 1 and k = 2]) (simp_all add: nn)
  also have "map (\<lambda>j. if j < 1 then coeffList ?d ! j else if j < 2 then 0 else (5 :: int32))
      [0..<Suc 2] = [0, 0, 5]"
    by (simp add: upt_rec numeral_2_eq_2)
  finally show ?thesis by (simp add: nn)
qed

lemma example_setCoeff_inrange:
  "setCoeff junk 3 0 \<lparr>coeffList = [0, 0, 5], size_poly = 3\<rparr> =
     Inr \<lparr>coeffList = [3, 0, 5], size_poly = 3\<rparr>"
proof -
  have "setCoeff junk 3 0 \<lparr>coeffList = [0, 0, 5], size_poly = 3\<rparr> =
      Inr (\<lparr>coeffList = [0, 0, 5], size_poly = 3\<rparr>
        \<lparr>coeffList := (coeffList \<lparr>coeffList = [0, 0, 5], size_poly = 3\<rparr>)[0 := 3]\<rparr>)"
    by (rule setCoeff_inrange [where n = 3 and k = 0]) (simp_all add: word_sless_alt)
  then show ?thesis by simp
qed

lemma example_convolution:
  "map (convolution \<lparr>coeffList = [1, 1], size_poly = 2\<rparr> \<lparr>coeffList = [1, 1], size_poly = 2\<rparr>)
     [0..<3] = [1, 2, 1]"
proof -
  have l: "len \<lparr>coeffList = [1, 1], size_poly = 2\<rparr> = 2" by (simp add: len_def)
  have u: "[0..<3] = [0, Suc 0, Suc (Suc 0)]" by (simp add: upt_rec numeral_3_eq_3)
  show ?thesis
    unfolding u by (simp add: convolution_def l numeral_2_eq_2)
qed

subsection \<open>operator<<\<close>

lemma put_put: "put (put os h a) h b = put os h (a @ b)"
  by (simp add: put_def)

lemma put_empty: "put os h [] = os"
  by (simp add: put_def)

lemma out_loop_eq:
  "k \<le> length (coeffList source) \<Longrightarrow>
   out_loop k source (os, nonzero) =
     Inr (put os cout (terms_text (coeffList source) k),
          nonzero \<or> (\<exists>i < k. coeffList source ! i \<noteq> 0))"
proof (induction k arbitrary: os nonzero)
  case 0
  show ?case by (simp add: put_empty)
next
  case (Suc k)
  let ?c = "coeffList source ! k"
  have r: "rd (coeffList source) (int k) = Inr ?c" using Suc.prems by simp
  have le: "k \<le> length (coeffList source)" using Suc.prems by simp
  show ?case
  proof (cases "?c = 0")
    case True
    have "(\<exists>i < Suc k. coeffList source ! i \<noteq> 0) \<longleftrightarrow> (\<exists>i < k. coeffList source ! i \<noteq> 0)"
      using True by (auto simp: less_Suc_eq)
    then show ?thesis
      using True r Suc.IH [OF le, of os nonzero] by simp
  next
    case False
    have t: "(let os = put os cout '' '';
                 os = (if 0 <s ?c then put os cout ''+'' else os);
                 os = put os cout (show_int (sint ?c));
                 os = (if 0 < k then put os cout ''x'' else os);
                 os = (if 1 < k then put (put os cout ''^'') cout (show_int (int k)) else os)
             in os) = put os cout (term_text ?c k)"
      by (auto simp: Let_def term_text_def put_put)
    have "out_loop (Suc k) source (os, nonzero) =
        out_loop k source (put os cout (term_text ?c k), True)"
      using False r t by (simp add: Let_def)
    also have "\<dots> = Inr (put (put os cout (term_text ?c k)) cout (terms_text (coeffList source) k),
        True \<or> (\<exists>i < k. coeffList source ! i \<noteq> 0))"
      by (rule Suc.IH [OF le])
    finally show ?thesis using False by (auto simp: put_put)
  qed
qed

lemma operator_out_eq:
  assumes "poly_ok source"
  shows "operator_out os output source = Inr (put os cout (format_text source), output)"
proof -
  have "1 \<le> sint (size_poly source)" using assms by (simp add: poly_ok_iff)
  then have "sint (size_poly source - 1) = sint (size_poly source) - 1"
    using sint_lt [of "size_poly source"]
    by (simp add: sint_word_ariths signed_take_bit_int_eq_self)
  then have rounds: "nat (sint (size_poly source - 1) + 1) = len source"
    by (simp add: len_def)
  have "len source \<le> length (coeffList source)" using assms by (simp add: poly_ok_iff)
  then have l: "out_loop (len source) source (os, False) =
      Inr (put os cout (terms_text (coeffList source) (len source)),
           False \<or> (\<exists>i < len source. coeffList source ! i \<noteq> 0))"
    by (rule out_loop_eq)
  have z: "terms_text cl k = []" if "\<forall>i < k. cl ! i = 0" for cl k
    using that by (induction k) simp_all
  show ?thesis
  proof (cases "\<forall>i < len source. coeffList source ! i = 0")
    case True
    then show ?thesis
      unfolding operator_out_def rounds l using z [of "len source" "coeffList source"]
      by (simp add: format_text_def put_empty)
  next
    case False
    then show ?thesis
      unfolding operator_out_def rounds l by (auto simp: format_text_def)
  qed
qed

lemma digits_small: "n < 10 \<Longrightarrow> digits n = [digit n]"
  by (subst digits.simps) simp

subsection \<open>More sample runs\<close>

lemma example_times_assign:
  "operator_times_assign junk \<lparr>coeffList = [1, 1], size_poly = 2\<rparr>
     \<lparr>coeffList = [1, 1], size_poly = 2\<rparr> =
   Inr \<lparr>coeffList = [junk 0 + 1, junk 1 + 2, junk 2 + 1], size_poly = 2\<rparr>"
proof -
  let ?p = "\<lparr>coeffList = [1, 1 :: int32], size_poly = 2\<rparr>"
  have ok: "poly_ok ?p" by (simp add: poly_ok_iff len_def)
  have l: "len ?p = 2" by (simp add: len_def)
  have small: "int (len ?p) + int (len ?p) - 1 < 2 ^ 31" by (simp add: l)
  have u: "[0..<3] = [0, Suc 0, Suc (Suc 0)]" by (simp add: upt_rec numeral_3_eq_3)
  have c: "convolution ?p ?p 0 = 1" "convolution ?p ?p (Suc 0) = 2" "convolution ?p ?p (Suc (Suc 0)) = 1"
    using example_convolution unfolding u by simp_all
  show ?thesis
    unfolding operator_times_assign_eq [OF ok ok small] l by (simp add: u c numeral_2_eq_2)
qed

lemma example_Poly_coeff_exp:
  "Poly_coeff_exp junk 4 2 = Inr \<lparr>coeffList = [0, 0, 4], size_poly = 3\<rparr>"
proof -
  have nn: "\<not> (2 :: int32) <s 0" by (simp add: word_sless_alt)
  have n: "new_int junk 3 = Inr (map junk [0..<3])"
    by (rule new_int_ok) simp
  have z: "zero_loop 0 2 (map junk [0..<3]) =
      Inr (map (\<lambda>k. if 0 \<le> k \<and> k < 2 then 0 else map junk [0..<3] ! k) [0..<length (map junk [0..<3])])"
    by (rule zero_loop_eq) simp
  have u: "[0..<3] = [0, Suc 0, Suc (Suc 0)]" by (simp add: upt_rec numeral_3_eq_3)
  have z': "zero_loop 0 2 (map junk [0..<3]) = Inr [0, 0, junk 2]"
    unfolding z by (simp add: u numeral_2_eq_2)
  have w: "wr [0, 0, junk 2] 2 4 = Inr [0, 0, 4]" by (simp add: wr_def numeral_2_eq_2)
  have s: "nat (2 :: int) = 2" "sint (3 - 1 :: int32) = 2" "(2 + 1 :: int32) = 3"
    by simp_all
  show ?thesis
    unfolding Poly_coeff_exp_def Let_def by (simp only: nn if_False s n z' w seq.simps)
qed

lemma example_operator_in:
  "operator_in junk 7 7 [5, 2, 3, 0, 0, 0] \<lparr>coeffList = [0], size_poly = 1\<rparr> =
     Some (Inr ([], \<lparr>coeffList = [3, 0, 5], size_poly = 3\<rparr>))"
proof -
  let ?d = "\<lparr>coeffList = [0 :: int32], size_poly = 1\<rparr>"
  have ok: "poly_ok ?d" by (simp add: poly_ok_iff len_def)
  have nz: "\<forall>(c, e) \<in> set [(5 :: int32, 2 :: int32), (3, 0)]. c \<noteq> 0 \<or> e \<noteq> 0" by simp
  have r: "reset_entries ?d = ?d" by (simp add: reset_entries_def len_def)
  have a: "apply_pairs junk [(5, 2), (3, 0)] ?d = Inr \<lparr>coeffList = [3, 0, 5], size_poly = 3\<rparr>"
    by (simp add: example_setCoeff_grow example_setCoeff_inrange)
  have "operator_in junk 7 7 (tokens [(5, 2), (3, 0)] @ [0, 0] @ []) ?d =
      Some (case apply_pairs junk [(5, 2), (3, 0)] (reset_entries ?d) of
              Inl err \<Rightarrow> Inl err | Inr t' \<Rightarrow> Inr ([], t'))"
    using ok nz by (rule operator_in_run)
  then show ?thesis unfolding r a by simp
qed

section \<open>The claims\<close>

text \<open>
  C1. \<open>(1 + x) *= (1 + x)\<close>: when the fresh array happens to hold zeros it ends up
  as \<open>[1, 2, 1]\<close>, but \<open>size\<close> is still 2, so the object is \<open>1 + 2x\<close> and
  \<open>getCoeff(2)\<close> is 0; when the fresh array holds sevens, the coefficients are
  \<open>[8, 9, 8]\<close>. The claim has length 3 and coefficients 1, 2, 1.
\<close>

theorem operator_times_assign_defects:
  "operator_times_assign zeroed \<lparr>coeffList = [1, 1], size_poly = 2\<rparr>
     \<lparr>coeffList = [1, 1], size_poly = 2\<rparr> = Inr \<lparr>coeffList = [1, 2, 1], size_poly = 2\<rparr> \<and>
   getCoeff \<lparr>coeffList = [1, 2, 1], size_poly = 2\<rparr> 2 = Inr 0 \<and>
   operator_times_assign sevens \<lparr>coeffList = [1, 1], size_poly = 2\<rparr>
     \<lparr>coeffList = [1, 1], size_poly = 2\<rparr> = Inr \<lparr>coeffList = [8, 9, 8], size_poly = 2\<rparr>"
proof -
  let ?p = "\<lparr>coeffList = [1, 1 :: int32], size_poly = 2\<rparr>"
  have ok: "poly_ok ?p" by (simp add: poly_ok_iff len_def)
  have l: "len ?p = 2" by (simp add: len_def)
  have small: "int (len ?p) + int (len ?p) - 1 < 2 ^ 31" by (simp add: l)
  have u: "[0..<3] = [0, Suc 0, Suc (Suc 0)]" by (simp add: upt_rec numeral_3_eq_3)
  have c: "convolution ?p ?p 0 = 1" "convolution ?p ?p (Suc 0) = 2" "convolution ?p ?p (Suc (Suc 0)) = 1"
    using example_convolution unfolding u by simp_all
  have a: "operator_times_assign zeroed ?p ?p = Inr \<lparr>coeffList = [1, 2, 1], size_poly = 2\<rparr>"
    unfolding operator_times_assign_eq [OF ok ok small] l by (simp add: u c zeroed_def)
  have b: "operator_times_assign sevens ?p ?p = Inr \<lparr>coeffList = [8, 9, 8], size_poly = 2\<rparr>"
    unfolding operator_times_assign_eq [OF ok ok small] l by (simp add: u c sevens_def)
  have g: "getCoeff \<lparr>coeffList = [1, 2, 1], size_poly = 2\<rparr> 2 = Inr 0"
    by (simp add: getCoeff_def word_sle_eq)
  from a g b show ?thesis by simp
qed

text \<open>
  C2. \<open>stream << p\<close> for \<open>p = x^3 - 3x^2 + 4\<close> and a \<open>stream\<close> at address 1, which
  is not \<open>cout\<close>, with nothing written anywhere before: the text
  \<open>" +1x^3 -3x^2 +4"\<close> is in \<open>cout\<close> and \<open>stream\<close> is still empty. The claim has
  the text in \<open>stream\<close>.
\<close>

theorem operator_out_writes_to_cout:
  "\<exists>os. operator_out blank 1 \<lparr>coeffList = [4, 0, - 3, 1], size_poly = 4\<rparr> = Inr (os, 1) \<and>
     os 1 = [] \<and> os cout = '' +1x^3 -3x^2 +4''"
proof -
  let ?p = "\<lparr>coeffList = [4, 0, - 3, 1 :: int32], size_poly = 4\<rparr>"
  have ok: "poly_ok ?p" by (simp add: poly_ok_iff len_def)
  have l: "len ?p = Suc (Suc (Suc (Suc 0)))" by (simp add: len_def)
  have s: "sint (- 3 :: int32) = - 3" "sint (4 :: int32) = 4" "sint (1 :: int32) = 1" by simp_all
  have d: "show_int 4 = ''4''" "show_int (- 3) = ''-3''" "show_int 1 = ''1''" "show_int 3 = ''3''"
    "show_int 2 = ''2''"
    by (simp_all add: show_int_def digits_small digit_def)
  have c: "(0 :: int32) <s 4" "(0 :: int32) <s 1" "\<not> (0 :: int32) <s - 3"
    by (simp_all add: word_sless_alt)
  have n: "int (Suc (Suc (Suc 0))) = 3" "int (Suc (Suc 0)) = 2" by simp_all
  have t: "terms_text (coeffList ?p) (len ?p) = '' +1x^3 -3x^2 +4''"
    unfolding l by (simp add: term_text_def s d c n del: of_nat_Suc)
  have nz: "\<not> (\<forall>i < len ?p. coeffList ?p ! i = 0)"
    unfolding l by (auto intro!: exI [of _ 0])
  have f: "format_text ?p = '' +1x^3 -3x^2 +4''"
    unfolding format_text_def using nz t by simp
  have "operator_out blank 1 ?p = Inr (put blank cout '' +1x^3 -3x^2 +4'', 1)"
    unfolding operator_out_eq [OF ok] f ..
  moreover have "put blank cout '' +1x^3 -3x^2 +4'' 1 = []"
    by (simp add: put_def cout_def blank_def)
  moreover have "put blank cout '' +1x^3 -3x^2 +4'' cout = '' +1x^3 -3x^2 +4''"
    by (simp add: put_def blank_def)
  ultimately show ?thesis by blast
qed

text \<open>
  C3, as amended. For well-formed \<open>p\<close> and \<open>q\<close> whose lengths add up to at most
  \<open>2^31\<close>, \<open>p * q\<close> returns a well-formed polynomial of length
  \<open>len p + len q - 1\<close>, at least 1, whose coefficient at each exponent \<open>k\<close> is the
  sum of the \<open>p[i] * q[j]\<close> with \<open>i + j = k\<close>, in 32-bit arithmetic. The operands are
  \<open>const\<close>: the model has no way to change them.
\<close>

theorem operator_times_convolution:
  assumes okp: "poly_ok p" and okq: "poly_ok q"
    and small: "int (len p) + int (len q) - 1 < 2 ^ 31"
  shows "\<exists>r. operator_times junk p q = Inr r \<and> poly_ok r \<and>
     len r = len p + len q - 1 \<and> 1 \<le> len r \<and> length (coeffList r) = len r \<and>
     (\<forall>k < len r. coeffList r ! k = convolution p q k)"
proof -
  let ?r = "\<lparr>coeffList = map (convolution p q) [0..<len p + len q - 1],
          size_poly = size_poly p + size_poly q - 1\<rparr>"
  have sp: "sint (size_poly p) = int (len p)" and sq: "sint (size_poly q) = int (len q)"
    using okp okq by (simp_all add: poly_ok_len)
  have n1: "1 \<le> len p" and m1: "1 \<le> len q"
    using okp okq sp sq by (simp_all add: poly_ok_iff)
  have s: "sint (size_poly ?r) = int (len p + len q - 1)"
    using sizes_sum(2) [OF sp sq n1 m1 small] by simp
  then have l: "len ?r = len p + len q - 1" by (simp add: len_def)
  have ok: "poly_ok ?r" using s by (rule poly_okI) (use n1 m1 in simp_all)
  have r: "operator_times junk p q = Inr ?r"
    using okp okq small by (rule operator_times_eq)
  show ?thesis
    using r ok l n1 m1 by (intro exI [of _ ?r]) simp
qed

theorem operator_times_convolution_witness:
  "poly_ok \<lparr>coeffList = [0, 2], size_poly = 2\<rparr> \<and> poly_ok \<lparr>coeffList = [0, 3], size_poly = 2\<rparr> \<and>
   (\<exists>r. operator_times zeroed \<lparr>coeffList = [0, 2], size_poly = 2\<rparr>
          \<lparr>coeffList = [0, 3], size_poly = 2\<rparr> = Inr r \<and>
        len r = 3 \<and> coeffList r ! 0 = 0 \<and> coeffList r ! 1 = 0 \<and> coeffList r ! 2 = 6)"
proof -
  let ?p = "\<lparr>coeffList = [0, 2], size_poly = 2\<rparr>" and ?q = "\<lparr>coeffList = [0, 3], size_poly = 2\<rparr>"
  have lp: "len ?p = 2" and lq: "len ?q = 2" by (simp_all add: len_def)
  have okp: "poly_ok ?p" and okq: "poly_ok ?q" by (simp_all add: poly_ok_iff len_def)
  have small: "int (len ?p) + int (len ?q) - 1 < 2 ^ 31" by (simp add: lp lq)
  have c: "convolution ?p ?q 0 = 0" "convolution ?p ?q 1 = 0" "convolution ?p ?q 2 = 6"
    by (simp_all add: convolution_def lp lq numeral_2_eq_2)
  from operator_times_convolution [OF okp okq small, of zeroed]
  obtain r where r: "operator_times zeroed ?p ?q = Inr r" "len r = 3"
    "\<forall>k < len r. coeffList r ! k = convolution ?p ?q k"
    by (auto simp: lp lq)
  then have "coeffList r ! 0 = 0" "coeffList r ! 1 = 0" "coeffList r ! 2 = 6"
    using c by simp_all
  then show ?thesis using okp okq r by (intro conjI exI [of _ r]) simp_all
qed

text \<open>
  C3 as stated speaks of every pair. Two polynomials of \<open>2^30 + 1\<close> coefficients
  each would give a product of \<open>2^31 + 1\<close> coefficients, which no \<open>int size\<close> can
  count: \<open>size + rhs.size - 2\<close> wraps to \<open>-2^31\<close>, which \<open>setCoeff\<close> cannot negate,
  and its write is outside the array.
\<close>

theorem operator_times_overflow_counterexample:
  "poly_ok \<lparr>coeffList = replicate 1073741825 0, size_poly = 1073741825\<rparr> \<and>
   operator_times zeroed \<lparr>coeffList = replicate 1073741825 0, size_poly = 1073741825\<rparr>
     \<lparr>coeffList = replicate 1073741825 0, size_poly = 1073741825\<rparr> = Inl OutOfBounds"
proof -
  have ok: "poly_ok \<lparr>coeffList = replicate 1073741825 0, size_poly = 1073741825\<rparr>"
    by (simp add: poly_ok_iff len_def)
  have e: "(1073741825 + 1073741825 - 2 :: int32) = 2147483648" by simp
  have a: "(2147483648 :: int32) <s 0" by (simp add: word_sless_alt)
  have ix: "(2147483648 :: int32) * (- 1) = 2147483648" by simp
  have b: "\<not> (1 :: int32) \<le>s 2147483648" by (simp add: word_sle_eq)
  have s: "sint (2147483648 :: int32) = - 2147483648" by simp
  have w: "wr [0] (- 2147483648) 0 = Inl OutOfBounds" by (simp add: wr_def)
  have "setCoeff zeroed 0 2147483648 \<lparr>coeffList = [0], size_poly = 1\<rparr> = Inl OutOfBounds"
    by (simp only: setCoeff_def Let_def a ix b s w if_True if_False Poly.select_convs seq.simps)
  then have "operator_times zeroed \<lparr>coeffList = replicate 1073741825 0, size_poly = 1073741825\<rparr>
     \<lparr>coeffList = replicate 1073741825 0, size_poly = 1073741825\<rparr> = Inl OutOfBounds"
    by (simp only: operator_times_def Poly_default_eq seq.simps Poly.select_convs e)
  with ok show ?thesis by (rule conjI)
qed

text \<open>
  C4. For well-formed \<open>a\<close> and \<open>b\<close>, \<open>a == b\<close> returns whether the shorter operand
  (\<open>a\<close> when the lengths are equal) agrees with the longer one at each of its
  exponents and the longer one is 0 at every exponent beyond; \<open>a != b\<close> returns the
  negation.
\<close>

theorem operator_eq_spec:
  assumes "poly_ok a" and "poly_ok b"
  shows "operator_eq a b = Inr (if len a \<le> len b then spec_equal a b else spec_equal b a) \<and>
         operator_neq a b = Inr (\<not> (if len a \<le> len b then spec_equal a b else spec_equal b a))"
proof -
  have sa: "sint (size_poly a) = int (len a)" and sb: "sint (size_poly b) = int (len b)"
    using assms by (simp_all add: poly_ok_len)
  have ba: "len a \<le> length (coeffList a)" and bb: "len b \<le> length (coeffList b)"
    using assms by (simp_all add: poly_ok_iff)
  have c: "size_poly b <s size_poly a \<longleftrightarrow> \<not> len a \<le> len b"
    using sa sb by (auto simp: word_sless_alt)
  have e: "operator_eq a b = Inr (if len a \<le> len b then spec_equal a b else spec_equal b a)"
  proof (cases "len a \<le> len b")
    case True
    then show ?thesis
      using c compare_eq [OF ba bb] by (simp add: operator_eq_def)
  next
    case False
    then show ?thesis
      using c compare_eq [OF bb ba] by (simp add: operator_eq_def)
  qed
  then show ?thesis by (simp add: operator_neq_def)
qed

theorem operator_eq_spec_witness:
  "poly_ok \<lparr>coeffList = [2], size_poly = 1\<rparr> \<and> poly_ok \<lparr>coeffList = [2, 0], size_poly = 2\<rparr> \<and>
   operator_eq \<lparr>coeffList = [2, 0], size_poly = 2\<rparr> \<lparr>coeffList = [2], size_poly = 1\<rparr> = Inr True \<and>
   operator_neq \<lparr>coeffList = [2, 0], size_poly = 2\<rparr> \<lparr>coeffList = [2], size_poly = 1\<rparr> = Inr False"
proof -
  let ?a = "\<lparr>coeffList = [2, 0], size_poly = 2\<rparr>" and ?b = "\<lparr>coeffList = [2], size_poly = 1\<rparr>"
  have oa: "poly_ok ?a" and ob: "poly_ok ?b" by (simp_all add: poly_ok_iff len_def)
  have la: "len ?a = 2" and lb: "len ?b = 1" by (simp_all add: len_def)
  have s: "spec_equal ?b ?a"
    unfolding spec_equal_def la lb by (auto simp: less_Suc_eq numeral_2_eq_2)
  show ?thesis
    using oa ob operator_eq_spec [OF oa ob] s by (simp add: la lb)
qed

text \<open>
  C5, as amended. For a well-formed \<open>p\<close> and an exponent \<open>e\<close> with \<open>|e| + 1\<close> an
  \<open>int\<close>, \<open>setCoeff(c, e)\<close> returns, and afterwards the coefficient at \<open>|e|\<close> is
  \<open>c\<close>. When \<open>|e|\<close> is not below the length of \<open>p\<close>, the new array has \<open>|e| + 1\<close>
  cells, the old coefficients are its prefix and the cells between them and the last
  one are 0. Otherwise the length and every other coefficient are as before.
\<close>

theorem setCoeff_sets_coefficient:
  assumes ok: "poly_ok p" and small: "\<bar>sint e\<bar> < 2 ^ 31 - 1"
  shows "\<exists>p'. setCoeff junk c e p = Inr p' \<and> poly_ok p' \<and>
     coeffList p' ! nat \<bar>sint e\<bar> = c \<and>
     (if len p \<le> nat \<bar>sint e\<bar>
      then len p' = nat \<bar>sint e\<bar> + 1 \<and> length (coeffList p') = nat \<bar>sint e\<bar> + 1 \<and>
           (\<forall>j < len p. coeffList p' ! j = coeffList p ! j) \<and>
           (\<forall>j. len p \<le> j \<and> j < nat \<bar>sint e\<bar> \<longrightarrow> coeffList p' ! j = 0)
      else len p' = len p \<and> length (coeffList p') = length (coeffList p) \<and>
           (\<forall>j. j \<noteq> nat \<bar>sint e\<bar> \<longrightarrow> coeffList p' ! j = coeffList p ! j))"
proof -
  define k where "k = nat \<bar>sint e\<bar>"
  have ix: "sint (if e <s 0 then e * (- 1) else e) = int k"
    using small sint_index [of e] by (simp add: k_def)
  have sz: "sint (size_poly p) = int (len p)" using ok by (rule poly_ok_len)
  have buf: "len p \<le> length (coeffList p)" and pos: "1 \<le> len p"
    using ok sz by (simp_all add: poly_ok_iff)
  have ksmall: "int k < 2 ^ 31 - 1" using small by (simp add: k_def)
  show ?thesis
  proof (cases "len p \<le> k")
    case True
    let ?p' = "\<lparr>coeffList = map (\<lambda>j. if j < len p then coeffList p ! j else if j < k then 0 else c)
        [0..<Suc k], size_poly = (if e <s 0 then e * (- 1) else e) + 1\<rparr>"
    have r: "setCoeff junk c e p = Inr ?p'"
      using sz buf ix True ksmall by (rule setCoeff_grow)
    have s1: "sint (size_poly ?p') = int (Suc k)"
      using sint_plus_one [of "if e <s 0 then e * (- 1) else e"] ix ksmall by simp
    have l: "len ?p' = Suc k" using s1 by (simp add: len_def)
    have okp: "poly_ok ?p'" using s1 by (rule poly_okI) simp_all
    have nthk: "coeffList ?p' ! k = c" using True by (simp del: upt_Suc)
    have pre: "\<forall>j < len p. coeffList ?p' ! j = coeffList p ! j"
      using True by (simp del: upt_Suc)
    have mid: "\<forall>j. len p \<le> j \<and> j < k \<longrightarrow> coeffList ?p' ! j = 0"
      by (simp del: upt_Suc)
    have ln: "length (coeffList ?p') = k + 1" by simp
    show ?thesis
      unfolding k_def [symmetric] using r True okp nthk pre mid l ln by (intro exI [of _ ?p']) simp
  next
    case False
    let ?p' = "p\<lparr>coeffList := (coeffList p)[k := c]\<rparr>"
    have lt: "k < len p" using False by simp
    have r: "setCoeff junk c e p = Inr ?p'"
      using sz buf ix lt by (rule setCoeff_inrange)
    have l: "len ?p' = len p" by (simp add: len_def)
    have okp: "poly_ok ?p'" using ok by (simp add: poly_ok_iff len_def)
    have nthk: "coeffList ?p' ! k = c" using lt buf by simp
    show ?thesis
      unfolding k_def [symmetric] using r False okp nthk l by (intro exI [of _ ?p']) simp
  qed
qed

theorem setCoeff_sets_coefficient_witness:
  "poly_ok \<lparr>coeffList = [4], size_poly = 1\<rparr> \<and> \<bar>sint (- 2 :: int32)\<bar> < 2 ^ 31 - 1 \<and>
   (\<exists>p'. setCoeff sevens 5 (- 2) \<lparr>coeffList = [4], size_poly = 1\<rparr> = Inr p' \<and>
      coeffList p' ! 2 = 5 \<and> len p' = 3 \<and> coeffList p' ! 0 = 4 \<and> coeffList p' ! 1 = 0)"
proof -
  let ?p = "\<lparr>coeffList = [4], size_poly = 1\<rparr>"
  have ok: "poly_ok ?p" by (simp add: poly_ok_iff len_def)
  have small: "\<bar>sint (- 2 :: int32)\<bar> < 2 ^ 31 - 1" by simp
  have l: "len ?p = 1" by (simp add: len_def)
  from setCoeff_sets_coefficient [OF ok small, of sevens 5]
  obtain p' where "setCoeff sevens 5 (- 2) ?p = Inr p'" "coeffList p' ! 2 = 5"
    "len p' = 3" "\<forall>j < 1. coeffList p' ! j = coeffList ?p ! j"
    "\<forall>j. 1 \<le> j \<and> j < 2 \<longrightarrow> coeffList p' ! j = 0"
    unfolding l by auto
  then show ?thesis using ok small by (intro conjI exI [of _ p']) auto
qed

text \<open>
  C5 as stated speaks of every exponent. At \<open>e = 2147483647\<close> the new length
  \<open>|e| + 1\<close> is not an \<open>int\<close>: \<open>index + 1\<close> wraps to a negative number and the
  allocation is refused, so no coefficient is set.
\<close>

theorem setCoeff_int_max_counterexample:
  "setCoeff zeroed 1 2147483647 \<lparr>coeffList = [0], size_poly = 1\<rparr> = Inl BadAlloc"
  by (rule setCoeff_int_max)

text \<open>
  C6, as amended. For a well-formed target and an input that holds the pairs \<open>ps\<close>,
  none of them \<open>0 0\<close> and each with an exponent \<open>e\<close> such that \<open>|e| + 1\<close> is an
  \<open>int\<close>, then \<open>0 0\<close>, then anything, \<open>operator>>\<close> returns a polynomial: the one
  that \<open>setCoeff\<close> gives when applied to the pairs in order, starting from the target
  with its \<open>size\<close> entries set to 0 and its length kept. The input left is what
  followed the pair \<open>0 0\<close>.
\<close>

theorem operator_in_applies_pairs:
  assumes ok: "poly_ok target"
    and nz: "\<forall>(c, e) \<in> set ps. (c \<noteq> 0 \<or> e \<noteq> 0) \<and> \<bar>sint e\<bar> < 2 ^ 31 - 1"
  shows "\<exists>t'. operator_in junk coeff0 exp0 (tokens ps @ [0, 0] @ rest) target =
         Some (Inr (rest, t')) \<and>
       apply_pairs junk ps (reset_entries target) = Inr t' \<and> poly_ok t' \<and>
       len (reset_entries target) = len target \<and>
       length (coeffList (reset_entries target)) = length (coeffList target) \<and>
       (\<forall>k < len target. coeffList (reset_entries target) ! k = 0)"
proof -
  have nz1: "\<forall>(c, e) \<in> set ps. c \<noteq> 0 \<or> e \<noteq> 0"
    and small: "\<forall>(c, e) \<in> set ps. \<bar>sint e\<bar> < 2 ^ 31 - 1"
    using nz by auto
  have "len target \<le> length (coeffList target)" using ok by (simp add: poly_ok_iff)
  then have z: "\<forall>k < len target. coeffList (reset_entries target) ! k = 0"
    by (simp add: reset_entries_def)
  have l: "len (reset_entries target) = len target"
    by (simp add: reset_entries_def len_def)
  have ln: "length (coeffList (reset_entries target)) = length (coeffList target)"
    by (simp add: reset_entries_def)
  from apply_pairs_returns [OF reset_entries_ok [OF ok] small, of junk]
  obtain t' where a: "apply_pairs junk ps (reset_entries target) = Inr t'" and okt: "poly_ok t'"
    by blast
  have "operator_in junk coeff0 exp0 (tokens ps @ [0, 0] @ rest) target = Some (Inr (rest, t'))"
    using operator_in_run [OF ok nz1, of junk coeff0 exp0 rest] by (simp add: a)
  with a okt z l ln show ?thesis by blast
qed

theorem operator_in_applies_pairs_witness:
  "poly_ok \<lparr>coeffList = [0], size_poly = 1\<rparr> \<and>
   operator_in zeroed 7 7 [5, 2, 3, 0, 0, 0] \<lparr>coeffList = [0], size_poly = 1\<rparr> =
     Some (Inr ([], \<lparr>coeffList = [3, 0, 5], size_poly = 3\<rparr>))"
proof -
  let ?d = "\<lparr>coeffList = [0 :: int32], size_poly = 1\<rparr>"
  have ok: "poly_ok ?d" by (simp add: poly_ok_iff len_def)
  have nz: "\<forall>(c, e) \<in> set [(5 :: int32, 2 :: int32), (3, 0)].
      (c \<noteq> 0 \<or> e \<noteq> 0) \<and> \<bar>sint e\<bar> < 2 ^ 31 - 1" by simp
  have r: "reset_entries ?d = ?d" by (simp add: reset_entries_def len_def)
  have a: "apply_pairs zeroed [(5, 2), (3, 0)] ?d = Inr \<lparr>coeffList = [3, 0, 5], size_poly = 3\<rparr>"
    by (simp add: example_setCoeff_grow example_setCoeff_inrange)
  from operator_in_applies_pairs [OF ok nz, of zeroed 7 7 "[]"]
  obtain t' where o: "operator_in zeroed 7 7 (tokens [(5, 2), (3, 0)] @ [0, 0] @ []) ?d =
      Some (Inr ([], t'))"
    and t: "apply_pairs zeroed [(5, 2), (3, 0)] (reset_entries ?d) = Inr t'"
    by blast
  from t have "t' = \<lparr>coeffList = [3, 0, 5], size_poly = 3\<rparr>" unfolding r a by simp
  with o have "operator_in zeroed 7 7 [5, 2, 3, 0, 0, 0] ?d =
      Some (Inr ([], \<lparr>coeffList = [3, 0, 5], size_poly = 3\<rparr>))"
    by simp
  with ok show ?thesis by (rule conjI)
qed

text \<open>
  C6 as stated speaks of every well-formed stream. For the stream
  \<open>1 2147483647 0 0\<close> and a default polynomial, \<open>setCoeff(1, 2147483647)\<close> cannot
  allocate its array (see C5): \<open>operator>>\<close> ends there, with no coefficient set and
  the pair \<open>0 0\<close> not read.
\<close>

theorem operator_in_int_max_counterexample:
  "poly_ok \<lparr>coeffList = [0], size_poly = 1\<rparr> \<and>
   operator_in zeroed 7 7 [1, 2147483647, 0, 0] \<lparr>coeffList = [0], size_poly = 1\<rparr> =
     Some (Inl BadAlloc)"
proof -
  let ?d = "\<lparr>coeffList = [0 :: int32], size_poly = 1\<rparr>"
  have ok: "poly_ok ?d" by (simp add: poly_ok_iff len_def)
  have r: "reset_entries ?d = ?d" by (simp add: reset_entries_def len_def)
  have z: "zero_loop 0 (len ?d) (coeffList ?d) = Inr [0]"
    using zero_loop_reset [OF ok] unfolding r by simp
  have l: "read_loop zeroed [0, 0] ?d 1 2147483647 = Some (Inl BadAlloc)"
    by (subst read_loop.simps) (simp add: setCoeff_int_max)
  have "operator_in zeroed 7 7 [1, 2147483647, 0, 0] ?d = Some (Inl BadAlloc)"
    unfolding operator_in_def using z l by simp
  with ok show ?thesis by (rule conjI)
qed

text \<open>
  C7, as amended. For well-formed \<open>p\<close> and \<open>q\<close>, \<open>p + q == q + p\<close> is true; and when
  the lengths of \<open>p\<close> and \<open>q\<close> add up to at most \<open>2^31\<close>, so that the product has an
  \<open>int\<close> length, \<open>p * q == q * p\<close> is true.
\<close>

theorem plus_times_commute:
  assumes okp: "poly_ok p" and okq: "poly_ok q"
  shows "plus_commutes junk p q = Inr True \<and>
     (int (len p) + int (len q) - 1 < 2 ^ 31 \<longrightarrow> times_commutes junk p q = Inr True)"
proof
  let ?s = "if len q < len p then added p q else added q p"
  have s: "operator_plus junk p q = Inr ?s" using okp okq by (rule operator_plus_eq)
  have s': "operator_plus junk q p = Inr ?s"
    using s operator_plus_commute [OF okp okq, of junk] by simp
  have "poly_ok ?s" using okp okq by (simp add: added_ok)
  then have "operator_eq ?s ?s = Inr True" by (rule operator_eq_refl)
  then show "plus_commutes junk p q = Inr True"
    unfolding plus_commutes_def by (simp only: s s' seq.simps)
next
  show "int (len p) + int (len q) - 1 < 2 ^ 31 \<longrightarrow> times_commutes junk p q = Inr True"
  proof
    assume small: "int (len p) + int (len q) - 1 < 2 ^ 31"
    let ?r = "\<lparr>coeffList = map (convolution p q) [0..<len p + len q - 1],
          size_poly = size_poly p + size_poly q - 1\<rparr>"
    have r: "operator_times junk p q = Inr ?r" using okp okq small by (rule operator_times_eq)
    have r': "operator_times junk q p = Inr ?r"
      using r operator_times_commute [OF okp okq small, of junk] by simp
    have "poly_ok ?r" using okp okq small by (rule product_ok)
    then have "operator_eq ?r ?r = Inr True" by (rule operator_eq_refl)
    then show "times_commutes junk p q = Inr True"
      unfolding times_commutes_def by (simp only: r r' seq.simps)
  qed
qed

theorem plus_times_commute_witness:
  "poly_ok \<lparr>coeffList = [3], size_poly = 1\<rparr> \<and> poly_ok \<lparr>coeffList = [0, 0, 4], size_poly = 3\<rparr> \<and>
   plus_commutes zeroed \<lparr>coeffList = [3], size_poly = 1\<rparr>
     \<lparr>coeffList = [0, 0, 4], size_poly = 3\<rparr> = Inr True \<and>
   times_commutes zeroed \<lparr>coeffList = [3], size_poly = 1\<rparr>
     \<lparr>coeffList = [0, 0, 4], size_poly = 3\<rparr> = Inr True"
proof -
  let ?p = "\<lparr>coeffList = [3], size_poly = 1\<rparr>" and ?q = "\<lparr>coeffList = [0, 0, 4], size_poly = 3\<rparr>"
  have lp: "len ?p = 1" and lq: "len ?q = 3" by (simp_all add: len_def)
  have okp: "poly_ok ?p" and okq: "poly_ok ?q" by (simp_all add: poly_ok_iff len_def)
  show ?thesis
    using okp okq plus_times_commute [OF okp okq, of zeroed] by (simp add: lp lq)
qed

text \<open>
  C7 as stated speaks of all polynomials. For a \<open>p\<close> of \<open>2^31 - 1\<close> coefficients and
  a \<open>q\<close> of two, the product would have \<open>2^31\<close> coefficients: its array cannot be
  allocated, and \<open>p * q == q * p\<close> has no value.
\<close>

theorem times_commutes_overflow_counterexample:
  "poly_ok \<lparr>coeffList = replicate 2147483647 0, size_poly = 2147483647\<rparr> \<and>
   poly_ok \<lparr>coeffList = [0, 1], size_poly = 2\<rparr> \<and>
   times_commutes zeroed \<lparr>coeffList = replicate 2147483647 0, size_poly = 2147483647\<rparr>
     \<lparr>coeffList = [0, 1], size_poly = 2\<rparr> = Inl BadAlloc"
proof -
  have ok: "poly_ok \<lparr>coeffList = replicate 2147483647 0, size_poly = 2147483647\<rparr>"
    by (simp add: poly_ok_iff len_def)
  have ok2: "poly_ok \<lparr>coeffList = [0, 1], size_poly = 2\<rparr>"
    by (simp add: poly_ok_iff len_def)
  have e: "(2147483647 + 2 - 2 :: int32) = 2147483647" by simp
  have "operator_times zeroed \<lparr>coeffList = replicate 2147483647 0, size_poly = 2147483647\<rparr>
     \<lparr>coeffList = [0, 1], size_poly = 2\<rparr> = Inl BadAlloc"
    by (simp only: operator_times_def Poly_default_eq seq.simps Poly.select_convs e setCoeff_int_max)
  then have "times_commutes zeroed \<lparr>coeffList = replicate 2147483647 0, size_poly = 2147483647\<rparr>
     \<lparr>coeffList = [0, 1], size_poly = 2\<rparr> = Inl BadAlloc"
    by (simp only: times_commutes_def seq.simps)
  with ok ok2 show ?thesis by (intro conjI)
qed

text \<open>
  C8. On a well-formed \<open>p\<close>, \<open>getCoeff(e)\<close> returns a value for every \<open>e\<close>: 0 when
  \<open>e\<close> is negative or not below the length of \<open>p\<close>, the stored coefficient
  otherwise. It is a \<open>const\<close> member: the model has no way to change \<open>p\<close>.
\<close>

theorem getCoeff_never_fails:
  assumes "poly_ok p"
  shows "getCoeff p e =
     Inr (if sint e < 0 \<or> int (len p) \<le> sint e then 0 else coeffList p ! nat (sint e))"
proof -
  have sz: "sint (size_poly p) = int (len p)" and buf: "len p \<le> length (coeffList p)"
    using assms poly_ok_len [of p] by (simp_all add: poly_ok_iff)
  show ?thesis
    using sz buf by (auto simp: getCoeff_def word_sle_eq word_sless_alt rd_def)
qed

theorem getCoeff_never_fails_witness:
  "poly_ok \<lparr>coeffList = [1, 5], size_poly = 2\<rparr> \<and>
   getCoeff \<lparr>coeffList = [1, 5], size_poly = 2\<rparr> 1 = Inr 5 \<and>
   getCoeff \<lparr>coeffList = [1, 5], size_poly = 2\<rparr> (- 1) = Inr 0 \<and>
   getCoeff \<lparr>coeffList = [1, 5], size_poly = 2\<rparr> 2 = Inr 0"
proof -
  let ?p = "\<lparr>coeffList = [1, 5], size_poly = 2\<rparr>"
  have ok: "poly_ok ?p" by (simp add: poly_ok_iff len_def)
  have l: "len ?p = 2" by (simp add: len_def)
  show ?thesis
    using ok getCoeff_never_fails [OF ok, of 1] getCoeff_never_fails [OF ok, of "- 1"]
      getCoeff_never_fails [OF ok, of 2]
    by (simp add: l)
qed

text \<open>
  C9. A well-formed object has a \<open>size\<close> of at least 1 and an array of at least that
  many cells, so its coefficient array has length at least 1. Every constructor that
  returns an object returns a well-formed one, and \<open>setCoeff\<close>, assignment, \<open>+=\<close>,
  \<open>-=\<close>, \<open>*=\<close> and \<open>operator>>\<close>, whenever they return, leave a well-formed
  receiver well-formed.
\<close>

theorem length_invariant:
  "(\<forall>p. poly_ok p \<longrightarrow> 1 \<le> len p \<and> 1 \<le> length (coeffList p)) \<and>
   (\<exists>p. Poly_default junk = Inr p \<and> poly_ok p) \<and>
   (\<exists>p. Poly_coeff junk c = Inr p \<and> poly_ok p) \<and>
   (\<forall>p. Poly_coeff_exp junk c e = Inr p \<longrightarrow> poly_ok p) \<and>
   (\<forall>orig. poly_ok orig \<longrightarrow> (\<exists>p. Poly_copy junk orig = Inr p \<and> poly_ok p)) \<and>
   (\<forall>p p'. poly_ok p \<and> setCoeff junk c e p = Inr p' \<longrightarrow> poly_ok p') \<and>
   (\<forall>s this rhs s'. poly_ok (s this) \<and> poly_ok (s rhs) \<and>
      operator_assign junk s this rhs = Inr s' \<longrightarrow> poly_ok (s' this)) \<and>
   (\<forall>p q p'. poly_ok p \<and> operator_plus_assign junk p q = Inr p' \<longrightarrow> poly_ok p') \<and>
   (\<forall>p q p'. poly_ok p \<and> operator_minus_assign junk p q = Inr p' \<longrightarrow> poly_ok p') \<and>
   (\<forall>p q p'. poly_ok p \<and> poly_ok q \<and> operator_times_assign junk p q = Inr p' \<longrightarrow> poly_ok p') \<and>
   (\<forall>coeff0 exp0 input target rest t'. poly_ok target \<and>
      operator_in junk coeff0 exp0 input target = Some (Inr (rest, t')) \<longrightarrow> poly_ok t')"
proof (intro conjI allI impI)
  fix p assume "poly_ok p"
  then have "1 \<le> sint (size_poly p)" and "len p \<le> length (coeffList p)"
    by (simp_all add: poly_ok_iff)
  then show "1 \<le> len p" and "1 \<le> length (coeffList p)" by (simp_all add: len_def)
next
  show "\<exists>p. Poly_default junk = Inr p \<and> poly_ok p"
    by (simp add: Poly_default_eq poly_ok_iff len_def)
next
  show "\<exists>p. Poly_coeff junk c = Inr p \<and> poly_ok p"
    by (simp add: Poly_coeff_eq poly_ok_iff len_def)
next
  fix p assume "Poly_coeff_exp junk c e = Inr p"
  then show "poly_ok p" by (rule Poly_coeff_exp_ok)
next
  fix orig assume "poly_ok orig"
  then show "\<exists>p. Poly_copy junk orig = Inr p \<and> poly_ok p"
    by (simp add: Poly_copy_eq poly_ok_iff len_def)
next
  fix p p' assume "poly_ok p \<and> setCoeff junk c e p = Inr p'"
  then show "poly_ok p'" using setCoeff_ok by blast
next
  fix s :: store and this rhs s'
  assume "poly_ok (s this) \<and> poly_ok (s rhs) \<and> operator_assign junk s this rhs = Inr s'"
  then show "poly_ok (s' this)" using operator_assign_ok by blast
next
  fix p q p' assume "poly_ok p \<and> operator_plus_assign junk p q = Inr p'"
  then show "poly_ok p'" using operator_plus_assign_ok by blast
next
  fix p q p' assume "poly_ok p \<and> operator_minus_assign junk p q = Inr p'"
  then show "poly_ok p'" using operator_minus_assign_ok by blast
next
  fix p q p' assume "poly_ok p \<and> poly_ok q \<and> operator_times_assign junk p q = Inr p'"
  then show "poly_ok p'" using operator_times_assign_ok by blast
next
  fix coeff0 exp0 input target rest t'
  assume "poly_ok target \<and> operator_in junk coeff0 exp0 input target = Some (Inr (rest, t'))"
  then show "poly_ok t'" using operator_in_ok by blast
qed

theorem length_invariant_witness:
  "poly_ok \<lparr>coeffList = [0], size_poly = 1\<rparr> \<and>
   setCoeff zeroed 5 2 \<lparr>coeffList = [0], size_poly = 1\<rparr> =
     Inr \<lparr>coeffList = [0, 0, 5], size_poly = 3\<rparr> \<and>
   poly_ok \<lparr>coeffList = [0, 0, 5], size_poly = 3\<rparr> \<and>
   1 \<le> len \<lparr>coeffList = [0, 0, 5], size_poly = 3\<rparr> \<and>
   1 \<le> length (coeffList \<lparr>coeffList = [0, 0, 5], size_poly = 3\<rparr>) \<and>
   Poly_coeff_exp zeroed 4 2 = Inr \<lparr>coeffList = [0, 0, 4], size_poly = 3\<rparr> \<and>
   poly_ok \<lparr>coeffList = [0, 0, 4], size_poly = 3\<rparr> \<and>
   poly_ok \<lparr>coeffList = [1, 1], size_poly = 2\<rparr> \<and>
   operator_times_assign zeroed \<lparr>coeffList = [1, 1], size_poly = 2\<rparr>
     \<lparr>coeffList = [1, 1], size_poly = 2\<rparr> = Inr \<lparr>coeffList = [1, 2, 1], size_poly = 2\<rparr> \<and>
   poly_ok \<lparr>coeffList = [1, 2, 1], size_poly = 2\<rparr> \<and>
   operator_in zeroed 7 7 [5, 2, 3, 0, 0, 0] \<lparr>coeffList = [0], size_poly = 1\<rparr> =
     Some (Inr ([], \<lparr>coeffList = [3, 0, 5], size_poly = 3\<rparr>)) \<and>
   poly_ok \<lparr>coeffList = [3, 0, 5], size_poly = 3\<rparr>"
proof -
  let ?d = "\<lparr>coeffList = [0 :: int32], size_poly = 1\<rparr>"
  let ?r = "\<lparr>coeffList = [0, 0, 5 :: int32], size_poly = 3\<rparr>"
  let ?x = "\<lparr>coeffList = [1, 1 :: int32], size_poly = 2\<rparr>"
  note inv = length_invariant [of zeroed 4 2]
  note least = length_invariant [of zeroed 5 2, THEN conjunct1]
  note ctor = inv [THEN conjunct2, THEN conjunct2, THEN conjunct2, THEN conjunct1]
  note step = length_invariant [of zeroed 5 2, THEN conjunct2, THEN conjunct2, THEN conjunct2,
    THEN conjunct2, THEN conjunct2, THEN conjunct1]
  note times = inv [THEN conjunct2, THEN conjunct2, THEN conjunct2, THEN conjunct2,
    THEN conjunct2, THEN conjunct2, THEN conjunct2, THEN conjunct2, THEN conjunct2, THEN conjunct1]
  note parse = inv [THEN conjunct2, THEN conjunct2, THEN conjunct2, THEN conjunct2,
    THEN conjunct2, THEN conjunct2, THEN conjunct2, THEN conjunct2, THEN conjunct2, THEN conjunct2]
  have ok: "poly_ok ?d" by (simp add: poly_ok_iff len_def)
  have okx: "poly_ok ?x" by (simp add: poly_ok_iff len_def)
  have s: "setCoeff zeroed 5 2 ?d = Inr ?r" by (rule example_setCoeff_grow)
  have okr: "poly_ok ?r" using step ok s by blast
  have l: "1 \<le> len ?r \<and> 1 \<le> length (coeffList ?r)" using least okr by blast
  have c: "Poly_coeff_exp zeroed 4 2 = Inr \<lparr>coeffList = [0, 0, 4], size_poly = 3\<rparr>"
    by (rule example_Poly_coeff_exp)
  have okc: "poly_ok \<lparr>coeffList = [0, 0, 4], size_poly = 3\<rparr>" using ctor c by blast
  have t: "operator_times_assign zeroed ?x ?x = Inr \<lparr>coeffList = [1, 2, 1], size_poly = 2\<rparr>"
    using example_times_assign [of zeroed] by (simp add: zeroed_def)
  have okt: "poly_ok \<lparr>coeffList = [1, 2, 1], size_poly = 2\<rparr>" using times okx t by blast
  have p: "operator_in zeroed 7 7 [5, 2, 3, 0, 0, 0] ?d =
      Some (Inr ([], \<lparr>coeffList = [3, 0, 5], size_poly = 3\<rparr>))"
    by (rule example_operator_in)
  have okp: "poly_ok \<lparr>coeffList = [3, 0, 5], size_poly = 3\<rparr>" using parse ok p by blast
  from ok s okr l c okc okx t okt p okp show ?thesis by simp
qed

text \<open>
  C10. \<open>p = p\<close>: when both operands are the object at the same address, the guard
  \<open>this != &rhs\<close> skips the replacement, and every object, \<open>p\<close> among them, is as
  before.
\<close>

theorem self_assignment_unchanged:
  "operator_assign junk s p p = Inr s"
  by (simp add: operator_assign_def)

end
